theory Spec2Isabelle
  imports Main "HOL-Library.Word" "HOL-Library.Sublist"
begin

unbundle bit_operations_syntax

section \<open>The metadata engine of darktable (src/common/metadata.c)\<close>

text \<open>
  A C string is modelled by the \<^typ>\<open>string\<close> of its bytes before the terminating
  NUL; a pointer that may be \<open>NULL\<close> is a \<^typ>\<open>string option\<close>. A \<open>GList\<close> of
  strings is a \<^typ>\<open>string list\<close>. A \<open>NULL\<close> dereference is the result \<open>None\<close> of
  the function that performs it.
\<close>

subsection \<open>Functions of the C library\<close>

text \<open>
  \<open>strncmp s1 s2 n\<close> compares at most \<open>n\<close> bytes and stops at the end of either
  string. Only the sign of a non-zero result is fixed by the C standard; the byte past
  the end of a string is the NUL, smaller than every byte of a string.
\<close>

fun strncmp :: "string \<Rightarrow> string \<Rightarrow> nat \<Rightarrow> int" where
  "strncmp s1 s2 0 = 0"
| "strncmp [] [] (Suc n) = 0"
| "strncmp [] (d # ds) (Suc n) = - 1"
| "strncmp (c # cs) [] (Suc n) = 1"
| "strncmp (c # cs) (d # ds) (Suc n) =
     (if c = d then strncmp cs ds n
      else if (of_char c :: nat) < of_char d then - 1 else 1)"

definition strlen :: "string \<Rightarrow> nat" where
  "strlen s = length s"

text \<open>
  \<open>atoi\<close> skips white space, reads an optional sign and then decimal digits up to
  the first byte that is not one. The result is an \<^typ>\<open>int\<close>: a text whose value
  does not fit the C \<open>int\<close> has no defined result in C, and the keys this file
  converts are printed from C \<open>int\<close>s.
\<close>

definition isspace :: "char \<Rightarrow> bool" where
  "isspace c = (c \<in> set [CHR '' '', CHR 0x09, CHR 0x0A, CHR 0x0B, CHR 0x0C, CHR 0x0D])"

definition isdigit :: "char \<Rightarrow> bool" where
  "isdigit c = (48 \<le> (of_char c :: nat) \<and> (of_char c :: nat) \<le> 57)"

fun atoi_digits :: "int \<Rightarrow> string \<Rightarrow> int" where
  "atoi_digits acc [] = acc"
| "atoi_digits acc (c # cs) =
     (if isdigit c then atoi_digits (acc * 10 + (of_char c - 48)) cs else acc)"

definition atoi :: "string \<Rightarrow> int" where
  "atoi s =
     (case dropWhile isspace s of
        [] \<Rightarrow> 0
      | c # cs \<Rightarrow>
          if c = CHR ''-'' then - atoi_digits 0 cs
          else if c = CHR ''+'' then atoi_digits 0 cs
          else atoi_digits 0 (c # cs))"

text \<open>The conversions \<open>%d\<close> and \<open>%u\<close> of \<open>printf\<close>.\<close>

definition digit_char :: "nat \<Rightarrow> char" where
  "digit_char d = char_of (48 + d)"

fun show_nat :: "nat \<Rightarrow> string" where
  "show_nat n =
     (if n < 10 then [digit_char n] else show_nat (n div 10) @ [digit_char (n mod 10)])"

declare show_nat.simps [simp del]

definition printf_d :: "int \<Rightarrow> string" where
  "printf_d i = (if i < 0 then CHR ''-'' # show_nat (nat (- i)) else show_nat (nat i))"

definition printf_u :: "32 word \<Rightarrow> string" where
  "printf_u w = show_nat (unat w)"

subsection \<open>The registry of metadata definitions\<close>

text \<open>
  \<open>dt_metadata_t\<close> is declared in common/metadata.h. Its \<open>key\<close> is an unsigned
  32-bit integer (it is printed with \<open>%u\<close> and compared with \<open>uint32_t\<close> values);
  the flags are C truth values. The two strings of a registered definition are
  taken to be proper C strings, not \<open>NULL\<close>.
\<close>

record dt_metadata_t =
  key :: "32 word"
  tagname :: string
  name :: string
  internal :: bool
  visible :: bool
  priv :: bool
  display_order :: int

text \<open>
  \<open>dt_metadata_get_keyid\<close>: the static list \<open>_metadata_list\<close> is the first
  argument. The result \<open>-1\<close> of type \<open>uint32_t\<close> is the word \<open>0xFFFFFFFF\<close>.
\<close>

fun get_keyid_loop :: "dt_metadata_t list \<Rightarrow> string \<Rightarrow> 32 word \<Rightarrow> 32 word" where
  "get_keyid_loop [] k result = result"
| "get_keyid_loop (metadata # iter) k result =
     (if strncmp k (tagname metadata) (strlen (tagname metadata)) = 0
      then key metadata
      else get_keyid_loop iter k result)"

definition dt_metadata_get_keyid :: "dt_metadata_t list \<Rightarrow> string option \<Rightarrow> 32 word" where
  "dt_metadata_get_keyid metadata_list k =
     (case k of
        None \<Rightarrow> - 1
      | Some s \<Rightarrow> get_keyid_loop metadata_list s (- 1))"

subsection \<open>Snapshots: lists of alternating keys and values\<close>

text \<open>
  \<open>_list_find_custom\<close> visits every second node of the list, starting with the
  first, and returns the first one whose string equals \<open>data\<close>. The node is given
  by its position in the list; \<open>None\<close> is the \<open>NULL\<close> result.
\<close>

fun list_find_custom :: "string list \<Rightarrow> string \<Rightarrow> nat option" where
  "list_find_custom [] d = None"
| "list_find_custom [k] d = (if k = d then Some 0 else None)"
| "list_find_custom (k # v # rest) d =
     (if k = d then Some 0 else map_option (\<lambda>i. i + 2) (list_find_custom rest d))"

text \<open>
  The common part of the three loops over a snapshot: \<open>different_value\<close> stays
  \<open>FALSE\<close> without a node \<open>same_key\<close>; with one, \<open>same2\<close> is the node after it
  and \<open>same2->data\<close> is compared with the value at hand. When \<open>same_key\<close> is the
  last node, \<open>same2\<close> is \<open>NULL\<close> and reading \<open>same2->data\<close> fails.
\<close>

definition different_value :: "string list \<Rightarrow> nat option \<Rightarrow> string \<Rightarrow> bool option" where
  "different_value l same_key v =
     (case same_key of
        None \<Rightarrow> Some False
      | Some i \<Rightarrow> if Suc i < length l then Some (l ! Suc i \<noteq> v) else None)"

text \<open>
  \<open>_get_tb_removed_metadata_string_values\<close> and
  \<open>_get_tb_added_metadata_string_values\<close> build the text of an SQL list:
  \<open>"k1,k2,..."\<close> and \<open>"(id,k1,'v1'),(id,k2,'v2'),..."\<close>. The text is kept as the
  list of its items, in the order they are written; \<open>NULL\<close> (nothing written) is the
  empty list. A snapshot that ends with a key and no value makes \<open>b2\<close> (\<open>a2\<close>)
  \<open>NULL\<close>, and the read of its \<open>data\<close> fails.
\<close>

fun get_tb_removed_metadata_string_values ::
  "string list \<Rightarrow> string list \<Rightarrow> int list option" where
  "get_tb_removed_metadata_string_values [] a = Some []"
| "get_tb_removed_metadata_string_values [k] a = None"
| "get_tb_removed_metadata_string_values (k # val # b) a =
     (let same_key = list_find_custom a k in
      case different_value a same_key val of
        None \<Rightarrow> None
      | Some dv \<Rightarrow>
          if same_key = None \<or> dv \<or> val = []
          then map_option ((#) (atoi k)) (get_tb_removed_metadata_string_values b a)
          else get_tb_removed_metadata_string_values b a)"

fun get_tb_added_metadata_string_values ::
  "int \<Rightarrow> string list \<Rightarrow> string list \<Rightarrow> (int \<times> int \<times> string) list option" where
  "get_tb_added_metadata_string_values imgid b [] = Some []"
| "get_tb_added_metadata_string_values imgid b [k] = None"
| "get_tb_added_metadata_string_values imgid b (k # val # a) =
     (let same_key = list_find_custom b k in
      case different_value b same_key val of
        None \<Rightarrow> None
      | Some dv \<Rightarrow>
          if (same_key = None \<or> dv) \<and> val \<noteq> []
          then map_option ((#) (imgid, atoi k, val))
                 (get_tb_added_metadata_string_values imgid b a)
          else get_tb_added_metadata_string_values imgid b a)"

text \<open>
  \<open>_metadata_add_metadata_to_list\<close>: \<open>metadata\<close> is a list of keys and values.
  Overwriting \<open>same2->data\<close> is the update of the list at the position after
  \<open>same_key\<close>. A \<open>metadata\<close> that ends with a key and no value has \<open>m2 = NULL\<close>:
  both branches that can follow read \<open>m2->data\<close>.
\<close>

fun metadata_add_metadata_to_list :: "string list \<Rightarrow> string list \<Rightarrow> string list option" where
  "metadata_add_metadata_to_list list [] = Some list"
| "metadata_add_metadata_to_list list [k] = None"
| "metadata_add_metadata_to_list list (k # v # m) =
     (let same_key = list_find_custom list k in
      case different_value list same_key v of
        None \<Rightarrow> None
      | Some dv \<Rightarrow>
          (case same_key of
             Some i \<Rightarrow>
               if dv then metadata_add_metadata_to_list (list[Suc i := v]) m
               else metadata_add_metadata_to_list list m
           | None \<Rightarrow> metadata_add_metadata_to_list (list @ [k, v]) m))"

text \<open>
  \<open>_metadata_remove_metadata_from_list\<close>: \<open>metadata\<close> is a plain list of keys.
  The two nodes \<open>same_key\<close> and \<open>same2\<close> are unlinked; with \<open>same2 = NULL\<close>
  the read \<open>same2->data\<close> fails.
\<close>

fun metadata_remove_metadata_from_list :: "string list \<Rightarrow> string list \<Rightarrow> string list option" where
  "metadata_remove_metadata_from_list list [] = Some list"
| "metadata_remove_metadata_from_list list (k # m) =
     (case list_find_custom list k of
        None \<Rightarrow> metadata_remove_metadata_from_list list m
      | Some i \<Rightarrow>
          if Suc i < length list
          then metadata_remove_metadata_from_list (take i list @ drop (i + 2) list) m
          else None)"

subsection \<open>The stored values and their replay\<close>

text \<open>
  Modelled from the spec: the table \<open>main.meta_data\<close> (its schema is in
  common/database.c, not among the sources) is the list of its rows
  \<open>(id, key, value)\<close>, a value being \<open>NULL\<close> or a text. \<open>SELECT\<close> returns the
  matching rows in the order of the list, \<open>DELETE\<close> drops the matching rows and
  \<open>INSERT\<close> adds its rows at the end; no constraint rejects a row. The ids and keys
  are the C \<open>int\<close>s that \<open>sqlite3_column_int\<close> returns.

  The macro \<open>dt_is_valid_imgid\<close> is defined in common/image.h, not among the
  sources: it is the parameter \<open>valid\<close> of every function that uses it.
\<close>

type_synonym meta_data_row = "int \<times> int \<times> string option"

text \<open>
  \<open>dt_metadata_get_list_id\<close>: the loop over the rows of the \<open>SELECT\<close>, each row
  appending its key, printed with \<open>%d\<close>, and its value, \<open>""\<close> for \<open>NULL\<close>.
\<close>

fun get_list_id_rows :: "meta_data_row list \<Rightarrow> string list \<Rightarrow> string list" where
  "get_list_id_rows [] metadata = metadata"
| "get_list_id_rows ((i, k, val) # rows) metadata =
     get_list_id_rows rows
       (metadata @ [printf_d k, (case val of None \<Rightarrow> [] | Some s \<Rightarrow> s)])"

definition dt_metadata_get_list_id ::
  "(int \<Rightarrow> bool) \<Rightarrow> meta_data_row list \<Rightarrow> int \<Rightarrow> string list" where
  "dt_metadata_get_list_id valid db img =
     (if \<not> valid img then []
      else get_list_id_rows (filter (\<lambda>(i, k, val). i = img) db) [])"

definition bulk_remove_metadata ::
  "(int \<Rightarrow> bool) \<Rightarrow> int \<Rightarrow> int list \<Rightarrow> meta_data_row list \<Rightarrow> meta_data_row list" where
  "bulk_remove_metadata valid img metadata_list db =
     (if valid img \<and> metadata_list \<noteq> []
      then filter (\<lambda>(i, k, val). \<not> (i = img \<and> k \<in> set metadata_list)) db
      else db)"

definition bulk_add_metadata ::
  "(int \<times> int \<times> string) list \<Rightarrow> meta_data_row list \<Rightarrow> meta_data_row list" where
  "bulk_add_metadata metadata_list db =
     (if metadata_list \<noteq> []
      then db @ map (\<lambda>(i, k, val). (i, k, Some val)) metadata_list
      else db)"

definition pop_undo_execute ::
  "(int \<Rightarrow> bool) \<Rightarrow> int \<Rightarrow> string list \<Rightarrow> string list \<Rightarrow> meta_data_row list
     \<Rightarrow> meta_data_row list option" where
  "pop_undo_execute valid img b a db =
     (case get_tb_removed_metadata_string_values b a of
        None \<Rightarrow> None
      | Some tobe_removed_list \<Rightarrow>
          (case get_tb_added_metadata_string_values img b a of
             None \<Rightarrow> None
           | Some tobe_added_list \<Rightarrow>
               Some (bulk_add_metadata tobe_added_list
                       (bulk_remove_metadata valid img tobe_removed_list db))))"

text \<open>
  \<open>dt_undo_metadata_t\<close>; the fields \<open>imgid\<close>, \<open>before\<close> and \<open>after\<close> carry the
  prefix \<open>undo_\<close> here.
\<close>

record dt_undo_metadata_t =
  undo_imgid :: int
  undo_before :: "string list"
  undo_after :: "string list"

text \<open>
  The enumerations of common/undo.h, not among the sources. Of \<open>dt_undo_type_t\<close>
  the code names \<open>DT_UNDO_METADATA\<close> only: the other members are one constructor.
  Of \<open>dt_undo_action_t\<close> it tests for \<open>DT_ACTION_UNDO\<close> only: every other
  action is \<open>DT_ACTION_REDO\<close>.
\<close>

datatype dt_undo_type_t = DT_UNDO_METADATA | DT_UNDO_OTHER

datatype dt_undo_action_t = DT_ACTION_UNDO | DT_ACTION_REDO

text \<open>
  \<open>_pop_undo\<close>: the state is the table and the list \<open>*imgs\<close>. The signal raised at
  the end has no effect on either.
\<close>

fun pop_undo_loop ::
  "(int \<Rightarrow> bool) \<Rightarrow> dt_undo_metadata_t list \<Rightarrow> dt_undo_action_t
     \<Rightarrow> meta_data_row list \<times> int list \<Rightarrow> (meta_data_row list \<times> int list) option" where
  "pop_undo_loop valid [] action (db, imgs) = Some (db, imgs)"
| "pop_undo_loop valid (undometadata # list) action (db, imgs) =
     (let b = (if action = DT_ACTION_UNDO then undo_after undometadata
               else undo_before undometadata);
          a = (if action = DT_ACTION_UNDO then undo_before undometadata
               else undo_after undometadata)
      in case pop_undo_execute valid (undo_imgid undometadata) b a db of
           None \<Rightarrow> None
         | Some db' \<Rightarrow>
             pop_undo_loop valid list action (db', undo_imgid undometadata # imgs))"

definition pop_undo ::
  "(int \<Rightarrow> bool) \<Rightarrow> dt_undo_type_t \<Rightarrow> dt_undo_metadata_t list \<Rightarrow> dt_undo_action_t
     \<Rightarrow> meta_data_row list \<times> int list \<Rightarrow> (meta_data_row list \<times> int list) option" where
  "pop_undo valid type data action s =
     (if type = DT_UNDO_METADATA then pop_undo_loop valid data action s else Some s)"

subsection \<open>The three mutations\<close>

text \<open>
  \<open>_cleanup_metadata_value\<close>: the first loop writes NULs over the spaces at the
  end, the second moves the start past the spaces at the front. Only the byte
  \<open>' '\<close> is a space here.
\<close>

function strip_trailing_spaces :: "string \<Rightarrow> string" where
  "strip_trailing_spaces v =
     (if v \<noteq> [] \<and> last v = CHR '' '' then strip_trailing_spaces (butlast v) else v)"
  by pat_completeness auto
termination
  by (relation "measure length") auto

declare strip_trailing_spaces.simps [simp del]

fun skip_leading_spaces :: "string \<Rightarrow> string" where
  "skip_leading_spaces [] = []"
| "skip_leading_spaces (c # cs) = (if c = CHR '' '' then skip_leading_spaces cs else c # cs)"

definition cleanup_metadata_value :: "string option \<Rightarrow> string" where
  "cleanup_metadata_value val =
     (case val of
        None \<Rightarrow> []
      | Some v \<Rightarrow> if v = [] then [] else skip_leading_spaces (strip_trailing_spaces v))"

text \<open>\<open>dt_tag_actions_t\<close>; \<open>_metadata_execute\<close> takes the action as a \<open>gint\<close>.\<close>

definition DT_MA_SET :: int where
  "DT_MA_SET = 0"

definition DT_MA_ADD :: int where
  "DT_MA_ADD = 1"

definition DT_MA_REMOVE :: int where
  "DT_MA_REMOVE = 2"

text \<open>The \<open>switch\<close> of \<open>_metadata_execute\<close>: the list \<open>undometadata->after\<close>.\<close>

definition metadata_after :: "int \<Rightarrow> string list \<Rightarrow> string list \<Rightarrow> string list option" where
  "metadata_after action b metadata =
     (if action = DT_MA_SET then Some metadata
      else if action = DT_MA_ADD then metadata_add_metadata_to_list b metadata
      else if action = DT_MA_REMOVE then metadata_remove_metadata_from_list b metadata
      else Some b)"

text \<open>
  \<open>_metadata_execute\<close>: the state is the table and the list \<open>*undo\<close>, to which the
  entries are appended when \<open>undo_on\<close> is set.
\<close>

fun metadata_execute ::
  "(int \<Rightarrow> bool) \<Rightarrow> int list \<Rightarrow> string list \<Rightarrow> bool \<Rightarrow> int
     \<Rightarrow> meta_data_row list \<times> dt_undo_metadata_t list
     \<Rightarrow> (meta_data_row list \<times> dt_undo_metadata_t list) option" where
  "metadata_execute valid [] metadata undo_on action (db, undo) = Some (db, undo)"
| "metadata_execute valid (img # images) metadata undo_on action (db, undo) =
     (let b = dt_metadata_get_list_id valid db img in
      case metadata_after action b metadata of
        None \<Rightarrow> None
      | Some a \<Rightarrow>
          (case pop_undo_execute valid img b a db of
             None \<Rightarrow> None
           | Some db' \<Rightarrow>
               metadata_execute valid images metadata undo_on action
                 (db',
                  if undo_on
                  then undo @ [\<lparr>undo_imgid = img, undo_before = b, undo_after = a\<rparr>]
                  else undo)))"

subsection \<open>The entry points\<close>

text \<open>
  Modelled from the spec: what the entry points reach outside this file. The table
  \<open>data.meta_data\<close> (schema in common/database.c) is the list of its rows. The
  configuration (control/conf.h) is what \<open>dt_conf_get_int\<close> and
  \<open>dt_conf_key_exists\<close> return for a setting. \<open>dt_undo_record\<close>
  (common/undo.h) puts the list it is given on top of the records made so far.
  \<open>xmp_never\<close> is whether \<open>dt_image_get_xmp_mode ()\<close> returns
  \<open>DT_WRITE_XMP_NEVER\<close>; \<open>act_on_images\<close> is what
  \<open>dt_act_on_get_images (TRUE, TRUE, FALSE)\<close> returns. With them the state holds
  the static list \<open>_metadata_list\<close> and the table \<open>main.meta_data\<close>.
\<close>

record darktable_t =
  metadata_list :: "dt_metadata_t list"
  data_meta_data :: "dt_metadata_t list"
  main_meta_data :: "meta_data_row list"
  conf_get_int :: "string \<Rightarrow> int"
  conf_key_exists :: "string \<Rightarrow> bool"
  undo_records :: "dt_undo_metadata_t list list"
  xmp_never :: bool
  act_on_images :: "int list"

text \<open>\<open>dt_metadata_get_metadata_by_tagname\<close>; \<open>g_strcmp0\<close> accepts \<open>NULL\<close>.\<close>

fun dt_metadata_get_metadata_by_tagname ::
  "dt_metadata_t list \<Rightarrow> string option \<Rightarrow> dt_metadata_t option" where
  "dt_metadata_get_metadata_by_tagname [] t = None"
| "dt_metadata_get_metadata_by_tagname (metadata # iter) t =
     (if Some (tagname metadata) = t then Some metadata
      else dt_metadata_get_metadata_by_tagname iter t)"

text \<open>
  \<open>dt_metadata_get_tag_subkey\<close>: the text after the last \<open>'.'\<close>, \<open>NULL\<close> without
  one. \<open>%s\<close> prints \<open>NULL\<close> as \<open>(null)\<close>.
\<close>

definition dt_metadata_get_tag_subkey :: "string \<Rightarrow> string option" where
  "dt_metadata_get_tag_subkey t =
     (if CHR ''.'' \<in> set t then Some (rev (takeWhile (\<lambda>c. c \<noteq> CHR ''.'') (rev t))) else None)"

definition printf_s :: "string option \<Rightarrow> string" where
  "printf_s x = (case x of None \<Rightarrow> ''(null)'' | Some s \<Rightarrow> s)"

definition flag_setting :: "string \<Rightarrow> string" where
  "flag_setting t =
     ''plugins/lighttable/metadata/'' @ printf_s (dt_metadata_get_tag_subkey t) @ ''_flag''"

text \<open>
  \<open>dt_metadata_set\<close>. The result \<open>None\<close> is a \<open>NULL\<close> dereference in
  \<open>_metadata_execute\<close>.
\<close>

definition dt_metadata_set ::
  "(int \<Rightarrow> bool) \<Rightarrow> darktable_t \<Rightarrow> int \<Rightarrow> string option \<Rightarrow> string option \<Rightarrow> bool
     \<Rightarrow> darktable_t option" where
  "dt_metadata_set valid st img k val undo_on =
     (if k = None then Some st
      else
        let keyid = sint (dt_metadata_get_keyid (metadata_list st) k) in
        if keyid \<noteq> - 1
        then
          let imgs = (if \<not> valid img then act_on_images st else [img]) in
          if imgs \<noteq> []
          then
            let metadata = [printf_d keyid, cleanup_metadata_value val] in
            case metadata_execute valid imgs metadata undo_on DT_MA_ADD
                   (main_meta_data st, []) of
              None \<Rightarrow> None
            | Some (db, undo) \<Rightarrow>
                Some (st\<lparr>main_meta_data := db,
                         undo_records :=
                           (if undo_on then undo # undo_records st else undo_records st)\<rparr>)
          else Some st
        else Some st)"

text \<open>
  \<open>dt_metadata_set_import\<close>. \<open>DT_METADATA_FLAG_IMPORTED\<close> is defined in
  common/metadata.h, not among the sources: it is the parameter \<open>flag_imported\<close>.
  First the value of the local variable \<open>imported\<close>.
\<close>

definition imported :: "int \<Rightarrow> darktable_t \<Rightarrow> dt_metadata_t \<Rightarrow> bool" where
  "imported flag_imported st md =
     (let imported0 = (\<not> xmp_never st) in
      if \<not> imported0 \<and> \<not> internal md
      then (conf_get_int st (flag_setting (tagname md)) AND flag_imported) \<noteq> 0
      else imported0)"

definition dt_metadata_set_import ::
  "(int \<Rightarrow> bool) \<Rightarrow> int \<Rightarrow> darktable_t \<Rightarrow> int \<Rightarrow> string option \<Rightarrow> string option
     \<Rightarrow> darktable_t option" where
  "dt_metadata_set_import valid flag_imported st img k val =
     (if k = None \<or> \<not> valid img then Some st
      else
        case dt_metadata_get_metadata_by_tagname (metadata_list st) k of
          None \<Rightarrow> Some st
        | Some md \<Rightarrow>
            if imported flag_imported st md
            then
              let imgs = [img] in
              if imgs \<noteq> []
              then
                let metadata = [printf_d (sint (key md)), cleanup_metadata_value val] in
                case metadata_execute valid imgs metadata False DT_MA_ADD
                       (main_meta_data st, []) of
                  None \<Rightarrow> None
                | Some (db, undo) \<Rightarrow> Some (st\<lparr>main_meta_data := db\<rparr>)
              else Some st
            else Some st)"

text \<open>
  \<open>dt_metadata_set_list\<close>: the loop over \<open>key_value\<close>, whose nodes may hold
  \<open>NULL\<close>. A known key in the last node has no node after it, and the read of
  \<open>kv->data\<close> for its value fails.
\<close>

fun set_list_loop ::
  "dt_metadata_t list \<Rightarrow> string option list \<Rightarrow> string list \<Rightarrow> string list option" where
  "set_list_loop ml [] metadata = Some metadata"
| "set_list_loop ml [k] metadata =
     (if sint (dt_metadata_get_keyid ml k) \<noteq> - 1 then None else Some metadata)"
| "set_list_loop ml (k # val # kv) metadata =
     (let keyid = sint (dt_metadata_get_keyid ml k) in
      if keyid \<noteq> - 1
      then (if val \<noteq> None
            then set_list_loop ml kv (metadata @ [printf_d keyid, cleanup_metadata_value val])
            else set_list_loop ml kv metadata)
      else set_list_loop ml kv metadata)"

definition dt_metadata_set_list ::
  "(int \<Rightarrow> bool) \<Rightarrow> darktable_t \<Rightarrow> int list \<Rightarrow> string option list \<Rightarrow> bool
     \<Rightarrow> darktable_t option" where
  "dt_metadata_set_list valid st imgs key_value undo_on =
     (case set_list_loop (metadata_list st) key_value [] of
        None \<Rightarrow> None
      | Some metadata \<Rightarrow>
          if metadata \<noteq> [] \<and> imgs \<noteq> []
          then
            case metadata_execute valid imgs metadata undo_on DT_MA_ADD
                   (main_meta_data st, []) of
              None \<Rightarrow> None
            | Some (db, undo) \<Rightarrow>
                Some (st\<lparr>main_meta_data := db,
                         undo_records :=
                           (if undo_on then undo # undo_records st else undo_records st)\<rparr>)
          else Some st)"

text \<open>
  \<open>dt_metadata_clear\<close>: the keys are collected by prepending and the list is
  reversed before use.
\<close>

fun clear_loop :: "dt_metadata_t list \<Rightarrow> string list \<Rightarrow> string list" where
  "clear_loop [] metadata = metadata"
| "clear_loop (md # iter) metadata =
     (if \<not> internal md
      then (if visible md then clear_loop iter (printf_u (key md) # metadata)
            else clear_loop iter metadata)
      else clear_loop iter metadata)"

definition dt_metadata_clear ::
  "(int \<Rightarrow> bool) \<Rightarrow> darktable_t \<Rightarrow> int list \<Rightarrow> bool \<Rightarrow> darktable_t option" where
  "dt_metadata_clear valid st imgs undo_on =
     (let metadata0 = clear_loop (metadata_list st) [] in
      if metadata0 \<noteq> []
      then
        let metadata = rev metadata0 in
        case metadata_execute valid imgs metadata undo_on DT_MA_REMOVE
               (main_meta_data st, []) of
          None \<Rightarrow> None
        | Some (db, undo) \<Rightarrow>
            Some (st\<lparr>main_meta_data := db,
                     undo_records :=
                       (if undo_on then undo # undo_records st else undo_records st)\<rparr>)
      else Some st)"

definition dt_metadata_set_list_id ::
  "(int \<Rightarrow> bool) \<Rightarrow> darktable_t \<Rightarrow> int list \<Rightarrow> string list \<Rightarrow> bool \<Rightarrow> bool
     \<Rightarrow> darktable_t option" where
  "dt_metadata_set_list_id valid st img metadata clear_on undo_on =
     (if img \<noteq> []
      then
        case metadata_execute valid img metadata undo_on
               (if clear_on then DT_MA_SET else DT_MA_ADD) (main_meta_data st, []) of
          None \<Rightarrow> None
        | Some (db, undo) \<Rightarrow>
            Some (st\<lparr>main_meta_data := db,
                     undo_records :=
                       (if undo_on then undo # undo_records st else undo_records st)\<rparr>)
      else Some st)"

text \<open>
  Modelled from the spec: the \<open>INSERT\<close> into \<open>data.meta_data\<close> with a
  \<open>NULL\<close> key. It is rejected when a row with the tag name exists (the store's
  uniqueness constraint); otherwise it adds the row with a key greater than every key of
  the table.
\<close>

definition insert_meta_data :: "dt_metadata_t list \<Rightarrow> dt_metadata_t \<Rightarrow> dt_metadata_t list" where
  "insert_meta_data rows metadata =
     (if tagname metadata \<in> set (map tagname rows) then rows
      else rows @ [metadata\<lparr>key := fold max (map key rows) 0 + 1\<rparr>])"

text \<open>\<open>_set_default_import_flag\<close> sets the flag of a setting that does not exist.\<close>

definition set_default_import_flag :: "int \<Rightarrow> darktable_t \<Rightarrow> dt_metadata_t \<Rightarrow> darktable_t" where
  "set_default_import_flag flag_imported st metadata =
     (let setting = flag_setting (tagname metadata) in
      if \<not> conf_key_exists st setting
      then st\<lparr>conf_get_int := (conf_get_int st)(setting := flag_imported),
              conf_key_exists := (conf_key_exists st)(setting := True)\<rparr>
      else st)"

text \<open>
  \<open>dt_metadata_add_metadata\<close>: the result of the \<open>INSERT\<close> is not read; the
  \<open>SELECT\<close> returns the first row with the tag name, and \<open>success\<close> is whether
  there is one. The function returns \<open>success\<close>; \<open>*metadata\<close> with its key
  set is the second component of the result.
\<close>

definition dt_metadata_add_metadata ::
  "int \<Rightarrow> darktable_t \<Rightarrow> dt_metadata_t \<Rightarrow> bool \<times> dt_metadata_t \<times> darktable_t" where
  "dt_metadata_add_metadata flag_imported st metadata =
     (let st1 = st\<lparr>data_meta_data := insert_meta_data (data_meta_data st) metadata\<rparr> in
      case find (\<lambda>r. tagname r = tagname metadata) (data_meta_data st1) of
        None \<Rightarrow> (False, metadata, st1)
      | Some r \<Rightarrow>
          (let metadata' = metadata\<lparr>key := key r\<rparr> in
           (True, metadata',
            set_default_import_flag flag_imported
              (st1\<lparr>metadata_list := metadata' # metadata_list st1\<rparr>) metadata')))"

subsection \<open>Snapshots as the specification reads them\<close>

text \<open>The (key, value) pairs of a snapshot, and the snapshot of a list of pairs.\<close>

fun pairs :: "'a list \<Rightarrow> ('a \<times> 'a) list" where
  "pairs (k # v # rest) = (k, v) # pairs rest"
| "pairs [k] = []"
| "pairs [] = []"

definition unpairs :: "('a \<times> 'a) list \<Rightarrow> 'a list" where
  "unpairs ps = concat (map (\<lambda>(k, v). [k, v]) ps)"

text \<open>
  The specification's removal and insertion rules, on pairs: \<open>map_of\<close> finds the
  value of the first pair with a key.
\<close>

definition removal_rule :: "(string \<times> string) list \<Rightarrow> string \<times> string \<Rightarrow> bool" where
  "removal_rule after p =
     (case map_of after (fst p) of
        None \<Rightarrow> True
      | Some v' \<Rightarrow> v' \<noteq> snd p \<or> v' = [])"

definition insertion_rule :: "(string \<times> string) list \<Rightarrow> string \<times> string \<Rightarrow> bool" where
  "insertion_rule before p =
     (snd p \<noteq> [] \<and>
      (case map_of before (fst p) of
         None \<Rightarrow> True
       | Some v' \<Rightarrow> v' \<noteq> snd p))"

text \<open>
  The specification's MergeAdd, on pairs: a key that is present has the value of its
  first pair overwritten in place, a key that is not is appended with its value.
\<close>

fun overwrite_first :: "string \<Rightarrow> string \<Rightarrow> (string \<times> string) list \<Rightarrow> (string \<times> string) list" where
  "overwrite_first k v [] = []"
| "overwrite_first k v ((k', v') # ps) =
     (if k' = k then (k', v) # ps else (k', v') # overwrite_first k v ps)"

definition merge_pair :: "(string \<times> string) list \<Rightarrow> string \<times> string \<Rightarrow> (string \<times> string) list" where
  "merge_pair ps p =
     (if fst p \<in> set (map fst ps) then overwrite_first (fst p) (snd p) ps else ps @ [p])"

definition merge_add :: "(string \<times> string) list \<Rightarrow> (string \<times> string) list \<Rightarrow> (string \<times> string) list" where
  "merge_add before payload = foldl merge_pair before payload"

text \<open>The pair a stored row is read as, and the numeric keys of a snapshot.\<close>

definition row_pair :: "meta_data_row \<Rightarrow> string \<times> string" where
  "row_pair r = (printf_d (fst (snd r)), (case snd (snd r) of None \<Rightarrow> [] | Some s \<Rightarrow> s))"

definition key_ids :: "string list \<Rightarrow> int list" where
  "key_ids s = map (atoi \<circ> fst) (pairs s)"

text \<open>
  The keys the specification's clear operation lists: those of the registered
  definitions that are not internal and are visible, in the order of the registry, as
  \<open>%u\<close> prints them; and the pairs of a snapshot whose key is not in a list.
\<close>

definition clear_keys :: "dt_metadata_t list \<Rightarrow> string list" where
  "clear_keys ml = map (printf_u \<circ> key) (filter (\<lambda>md. \<not> internal md \<and> visible md) ml)"

definition unlisted :: "string list \<Rightarrow> string list \<Rightarrow> (string \<times> string) list" where
  "unlisted ks s = filter (\<lambda>p. fst p \<notin> set ks) (pairs s)"

text \<open>
  The specification's Diff and Apply for one entity, on the table: the removals are the
  numeric keys of the pairs of \<open>b\<close> that the removal rule marks, the insertions the
  rows of the pairs of \<open>a\<close> that the insertion rule emits; applying them deletes
  the entity's rows with a removed key and then adds the inserted rows.
\<close>

definition removals :: "string list \<Rightarrow> string list \<Rightarrow> int list" where
  "removals b a = map (atoi \<circ> fst) (filter (removal_rule (pairs a)) (pairs b))"

definition insertions :: "int \<Rightarrow> string list \<Rightarrow> string list \<Rightarrow> meta_data_row list" where
  "insertions img b a =
     map (\<lambda>p. (img, atoi (fst p), Some (snd p))) (filter (insertion_rule (pairs b)) (pairs a))"

definition apply_diff ::
  "int \<Rightarrow> string list \<Rightarrow> string list \<Rightarrow> meta_data_row list \<Rightarrow> meta_data_row list" where
  "apply_diff img b a db =
     filter (\<lambda>r. \<not> (fst r = img \<and> fst (snd r) \<in> set (removals b a))) db @ insertions img b a"

text \<open>The rows of an entity in the table.\<close>

definition rows_of :: "int \<Rightarrow> meta_data_row list \<Rightarrow> meta_data_row list" where
  "rows_of img db = filter (\<lambda>r. fst r = img) db"

text \<open>
  The payload \<open>dt_metadata_set_list\<close> hands to MergeAdd, as the specification reads
  it: one pair for every key of \<open>key_value\<close> that the prefix lookup knows and whose
  value is present, the key as its number and the value cleaned.
\<close>

definition set_list_payload :: "dt_metadata_t list \<Rightarrow> string option list \<Rightarrow> string list" where
  "set_list_payload ml key_value =
     unpairs
       (map (\<lambda>p. (printf_d (sint (dt_metadata_get_keyid ml (fst p))),
                  cleanup_metadata_value (snd p)))
          (filter (\<lambda>p. sint (dt_metadata_get_keyid ml (fst p)) \<noteq> - 1 \<and> snd p \<noteq> None)
             (pairs key_value)))"

text \<open>
  The specification's MergeAdd of a payload for one entity, on the table: the snapshot of
  the entity is read, the payload is merged into it and the diff of the two snapshots is
  applied.
\<close>

definition merge_add_rows ::
  "(int \<Rightarrow> bool) \<Rightarrow> string list \<Rightarrow> int \<Rightarrow> meta_data_row list \<Rightarrow> meta_data_row list" where
  "merge_add_rows valid payload img db =
     (let b = dt_metadata_get_list_id valid db img
      in apply_diff img b (unpairs (merge_add (pairs b) (pairs payload))) db)"

text \<open>
  The specification's RemoveMatching, on pairs: every key of the list deletes the first
  pair with that key; and for one entity, on the table, as for MergeAdd.
\<close>

fun remove_first :: "string \<Rightarrow> (string \<times> string) list \<Rightarrow> (string \<times> string) list" where
  "remove_first k [] = []"
| "remove_first k ((k', v) # ps) = (if k' = k then ps else (k', v) # remove_first k ps)"

definition remove_matching :: "(string \<times> string) list \<Rightarrow> string list \<Rightarrow> (string \<times> string) list" where
  "remove_matching before ks = foldl (\<lambda>ps k. remove_first k ps) before ks"

definition remove_matching_rows ::
  "(int \<Rightarrow> bool) \<Rightarrow> string list \<Rightarrow> int \<Rightarrow> meta_data_row list \<Rightarrow> meta_data_row list" where
  "remove_matching_rows valid ks img db =
     (let b = dt_metadata_get_list_id valid db img
      in apply_diff img b (unpairs (remove_matching (pairs b) ks)) db)"

text \<open>
  The specification's replay of a group: Diff and Apply, as \<open>_pop_undo_execute\<close> does
  them, for each triple of an entity, a before and an after snapshot, in the order of the
  group; a failed step fails the replay.
\<close>

fun replay ::
  "(int \<Rightarrow> bool) \<Rightarrow> (int \<times> string list \<times> string list) list \<Rightarrow> meta_data_row list
     \<Rightarrow> meta_data_row list option" where
  "replay valid [] db = Some db"
| "replay valid ((img, b, a) # rest) db =
     (case pop_undo_execute valid img b a db of
        None \<Rightarrow> None
      | Some db' \<Rightarrow> replay valid rest db')"

subsection \<open>An example state\<close>

text \<open>
  A registry of two definitions, a visible one and an internal one, and a state around
  a given table of values; the witnesses below evaluate the functions on them.
\<close>

abbreviation title_md :: dt_metadata_t where
  "title_md \<equiv>
     \<lparr>key = 1, tagname = ''Xmp.dc.title'', name = ''title'', internal = False,
      visible = True, priv = False, display_order = 0\<rparr>"

abbreviation version_md :: dt_metadata_t where
  "version_md \<equiv>
     \<lparr>key = 2, tagname = ''Xmp.darktable.version_name'', name = ''version name'',
      internal = True, visible = True, priv = False, display_order = 1\<rparr>"

abbreviation example_state :: "meta_data_row list \<Rightarrow> darktable_t" where
  "example_state db \<equiv>
     \<lparr>metadata_list = [title_md, version_md], data_meta_data = [title_md, version_md],
      main_meta_data = db, conf_get_int = (\<lambda>setting. 0),
      conf_key_exists = (\<lambda>setting. False), undo_records = [], xmp_never = False,
      act_on_images = []\<rparr>"

section \<open>Properties\<close>

subsection \<open>Numbers as text\<close>

lemma of_char_digit_char: "d < 10 \<Longrightarrow> (of_char (digit_char d) :: nat) = 48 + d"
  by (simp add: digit_char_def)

lemma of_char_digit_char_int: "d < 10 \<Longrightarrow> (of_char (digit_char d) :: int) = 48 + int d"
  using of_char_digit_char [of d] of_nat_of_char [of "digit_char d", where ?'a = int] by simp

lemma isdigit_digit_char: "d < 10 \<Longrightarrow> isdigit (digit_char d)"
  by (simp add: isdigit_def of_char_digit_char)

lemma atoi_digits_append:
  "\<forall>c \<in> set xs. isdigit c \<Longrightarrow> atoi_digits acc (xs @ ys) = atoi_digits (atoi_digits acc xs) ys"
  by (induction xs arbitrary: acc) simp_all

lemma show_nat_digits: "\<forall>c \<in> set (show_nat n). isdigit c"
proof (induction n rule: show_nat.induct)
  case (1 n)
  show ?case
  proof (cases "n < 10")
    case True
    then show ?thesis by (simp add: show_nat.simps [of n] isdigit_digit_char)
  next
    case False
    then show ?thesis using 1 by (simp add: show_nat.simps [of n] isdigit_digit_char)
  qed
qed

lemma atoi_digits_show_nat: "atoi_digits 0 (show_nat n) = int n"
proof (induction n rule: show_nat.induct)
  case (1 n)
  show ?case
  proof (cases "n < 10")
    case True
    then show ?thesis
      by (simp add: show_nat.simps [of n] isdigit_digit_char of_char_digit_char_int)
  next
    case False
    have d: "n mod 10 < 10" by simp
    have "atoi_digits 0 (show_nat n) =
            atoi_digits (atoi_digits 0 (show_nat (n div 10))) [digit_char (n mod 10)]"
      using False by (simp add: show_nat.simps [of n] atoi_digits_append show_nat_digits)
    also have "\<dots> = int (n div 10) * 10 + int (n mod 10)"
      using 1 False d by (simp add: isdigit_digit_char of_char_digit_char_int)
    also have "\<dots> = int n" by (simp add: zmod_int zdiv_int)
    finally show ?thesis .
  qed
qed

lemma show_nat_Cons: "\<exists>c cs. show_nat n = c # cs \<and> isdigit c"
proof -
  have "show_nat n \<noteq> []" by (subst show_nat.simps) simp
  then obtain c cs where "show_nat n = c # cs" by (cases "show_nat n") auto
  moreover have "isdigit c" using show_nat_digits [of n] calculation by simp
  ultimately show ?thesis by blast
qed

lemma isdigit_not_special: "isdigit c \<Longrightarrow> \<not> isspace c \<and> c \<noteq> CHR ''-'' \<and> c \<noteq> CHR ''+''"
  by (auto simp: isdigit_def isspace_def)

lemma atoi_show_nat: "atoi (show_nat n) = int n"
proof -
  obtain c cs where s: "show_nat n = c # cs" and c: "isdigit c" using show_nat_Cons by blast
  have "atoi (c # cs) = atoi_digits 0 (c # cs)"
    using isdigit_not_special [OF c] by (simp add: atoi_def)
  then show ?thesis using atoi_digits_show_nat [of n] s by simp
qed

lemma atoi_printf_d: "atoi (printf_d i) = i"
proof (cases "i < 0")
  case True
  have "atoi (CHR ''-'' # show_nat (nat (- i))) = - atoi_digits 0 (show_nat (nat (- i)))"
    by (simp add: atoi_def isspace_def)
  then show ?thesis using True by (simp add: printf_d_def atoi_digits_show_nat)
next
  case False
  then show ?thesis by (simp add: printf_d_def atoi_show_nat)
qed

subsection \<open>Snapshots of even length\<close>

lemma lfc_spec:
  "even (length l) \<Longrightarrow>
   (case list_find_custom l k of
      None \<Rightarrow> map_of (pairs l) k = None
    | Some i \<Rightarrow> Suc i < length l \<and> map_of (pairs l) k = Some (l ! Suc i))"
  by (induction l k rule: list_find_custom.induct) (auto split: option.splits)

lemma different_value_even:
  "even (length l) \<Longrightarrow>
   different_value l (list_find_custom l k) v =
     Some (case map_of (pairs l) k of None \<Rightarrow> False | Some v' \<Rightarrow> v' \<noteq> v)"
  using lfc_spec [of l k] by (auto simp: different_value_def split: option.splits)

lemma lfc_None_even:
  "even (length l) \<Longrightarrow> (list_find_custom l k = None) = (map_of (pairs l) k = None)"
  using lfc_spec [of l k] by (auto split: option.splits)

lemma tb_removed_even:
  "even (length b) \<Longrightarrow> even (length a) \<Longrightarrow>
   get_tb_removed_metadata_string_values b a =
     Some (map (atoi \<circ> fst) (filter (removal_rule (pairs a)) (pairs b)))"
proof (induction b a rule: get_tb_removed_metadata_string_values.induct)
  case (3 k val b a)
  then show ?case
    by (auto simp: different_value_even lfc_None_even removal_rule_def Let_def
             split: option.splits)
qed simp_all

lemma tb_added_even:
  "even (length b) \<Longrightarrow> even (length a) \<Longrightarrow>
   get_tb_added_metadata_string_values img b a =
     Some (map (\<lambda>p. (img, atoi (fst p), snd p)) (filter (insertion_rule (pairs b)) (pairs a)))"
proof (induction img b a rule: get_tb_added_metadata_string_values.induct)
  case (3 img b k val a)
  then show ?case
    by (auto simp: different_value_even lfc_None_even insertion_rule_def Let_def
             split: option.splits)
qed simp_all

lemma unpairs_pairs: "even (length l) \<Longrightarrow> unpairs (pairs l) = l"
  by (induction l rule: pairs.induct) (simp_all add: unpairs_def)

lemma pairs_unpairs: "pairs (unpairs ps) = ps"
  by (induction ps) (auto simp: unpairs_def)

lemma length_unpairs: "length (unpairs ps) = 2 * length ps"
  by (induction ps) (auto simp: unpairs_def)

lemma pairs_append: "even (length l) \<Longrightarrow> pairs (l @ m) = pairs l @ pairs m"
  by (induction l rule: pairs.induct) simp_all

lemma lfc_overwrite:
  "even (length l) \<Longrightarrow> list_find_custom l k = Some i \<Longrightarrow>
   Suc i < length l \<and> pairs (l[Suc i := v]) = overwrite_first k v (pairs l)"
  by (induction l k arbitrary: i rule: list_find_custom.induct) (auto split: if_splits)

lemma lfc_remove:
  "even (length l) \<Longrightarrow> list_find_custom l k = Some i \<Longrightarrow> \<forall>v. \<not> P (k, v) \<Longrightarrow>
   Suc i < length l \<and> even (length (take i l @ drop (i + 2) l)) \<and>
   filter P (pairs (take i l @ drop (i + 2) l)) = filter P (pairs l)"
  by (induction l k arbitrary: i rule: list_find_custom.induct) (auto split: if_splits)

lemma add_even:
  "even (length l) \<Longrightarrow> even (length m) \<Longrightarrow>
   \<exists>l'. metadata_add_metadata_to_list l m = Some l' \<and> even (length l') \<and>
         pairs l' = merge_add (pairs l) (pairs m)"
proof (induction m arbitrary: l rule: pairs.induct)
  case (1 k v m)
  have em: "even (length m)" using "1.prems" by simp
  show ?case
  proof (cases "list_find_custom l k")
    case None
    then have nk: "k \<notin> set (map fst (pairs l))"
      using lfc_None_even [of l k] "1.prems" by (simp add: map_of_eq_None_iff)
    have "\<exists>l'. metadata_add_metadata_to_list (l @ [k, v]) m = Some l' \<and> even (length l') \<and>
         pairs l' = merge_add (pairs (l @ [k, v])) (pairs m)"
      using "1.IH" [of "l @ [k, v]"] em "1.prems" by simp
    then show ?thesis
      using None nk "1.prems"
      by (simp add: different_value_def pairs_append merge_add_def merge_pair_def)
  next
    case (Some i)
    have ov: "Suc i < length l" "pairs (l[Suc i := v]) = overwrite_first k v (pairs l)"
      using lfc_overwrite [OF _ Some] "1.prems" by auto
    have ik: "k \<in> set (map fst (pairs l))"
      using lfc_None_even [of l k] "1.prems" Some by (simp add: map_of_eq_None_iff)
    have dv: "different_value l (Some i) v = Some (l ! Suc i \<noteq> v)"
      using ov by (simp add: different_value_def)
    have upd: "\<exists>l'. metadata_add_metadata_to_list (l[Suc i := v]) m = Some l' \<and>
         even (length l') \<and> pairs l' = merge_add (pairs (l[Suc i := v])) (pairs m)"
      using "1.IH" [of "l[Suc i := v]"] em "1.prems" by simp
    show ?thesis
    proof (cases "l ! Suc i \<noteq> v")
      case True
      then show ?thesis
        using upd Some dv ov ik by (simp add: merge_add_def merge_pair_def)
    next
      case False
      then have same: "l[Suc i := v] = l" by (metis list_update_id)
      show ?thesis
        using upd Some dv False ov ik same by (simp add: merge_add_def merge_pair_def)
    qed
  qed
next
  case (2 k)
  then show ?case by simp
next
  case 3
  then show ?case by (simp add: merge_add_def)
qed

lemma remove_even:
  "even (length l) \<Longrightarrow> \<forall>k \<in> set ks. \<forall>v. \<not> P (k, v) \<Longrightarrow>
   \<exists>l'. metadata_remove_metadata_from_list l ks = Some l' \<and> even (length l') \<and>
         filter P (pairs l') = filter P (pairs l)"
proof (induction l ks rule: metadata_remove_metadata_from_list.induct)
  case (1 list)
  then show ?case by simp
next
  case (2 list k m)
  show ?case
  proof (cases "list_find_custom list k")
    case None
    then show ?thesis using 2 by simp
  next
    case (Some i)
    have r: "Suc i < length list" "even (length (take i list @ drop (i + 2) list))"
      "filter P (pairs (take i list @ drop (i + 2) list)) = filter P (pairs list)"
      using lfc_remove [OF "2.prems"(1) Some, of P] "2.prems"(2) by auto
    have "\<exists>l'. metadata_remove_metadata_from_list (take i list @ drop (i + 2) list) m = Some l' \<and>
         even (length l') \<and>
         filter P (pairs l') = filter P (pairs (take i list @ drop (i + 2) list))"
      using "2.IH"(2) [OF Some r(1)] r(2) "2.prems"(2) by simp
    then show ?thesis using Some r by simp
  qed
qed

lemma distinct_key_ids_fst: "distinct (key_ids s) \<Longrightarrow> distinct (map fst (pairs s))"
  by (simp add: key_ids_def distinct_map inj_on_def) 

lemma key_ids_unique:
  "distinct (key_ids s) \<Longrightarrow> p \<in> set (pairs s) \<Longrightarrow> q \<in> set (pairs s) \<Longrightarrow>
   atoi (fst p) = atoi (fst q) \<Longrightarrow> p = q"
  by (auto simp: key_ids_def distinct_map inj_on_def)

lemma diff_same_empty:
  assumes "even (length s)" and "distinct (map fst (pairs s))"
    and "\<forall>p \<in> set (pairs s). snd p \<noteq> []"
  shows "get_tb_removed_metadata_string_values s s = Some [] \<and>
         get_tb_added_metadata_string_values img s s = Some []"
proof -
  have m: "\<And>p. p \<in> set (pairs s) \<Longrightarrow> map_of (pairs s) (fst p) = Some (snd p)"
    using assms(2) by simp
  have "filter (removal_rule (pairs s)) (pairs s) = []"
    using m assms(3) by (auto simp: removal_rule_def filter_empty_conv)
  moreover have "filter (insertion_rule (pairs s)) (pairs s) = []"
    using m by (auto simp: insertion_rule_def filter_empty_conv)
  ultimately show ?thesis using assms(1) by (simp add: tb_removed_even tb_added_even)
qed

lemma diff_unchanged_pair:
  assumes "even (length b)" and "even (length a)"
    and "distinct (key_ids b)" and "distinct (key_ids a)"
    and "(k, v) \<in> set (pairs b)" and "(k, v) \<in> set (pairs a)" and "v \<noteq> []"
  shows "\<exists>r ad. get_tb_removed_metadata_string_values b a = Some r \<and>
           get_tb_added_metadata_string_values img b a = Some ad \<and>
           atoi k \<notin> set r \<and> atoi k \<notin> set (map (fst \<circ> snd) ad)"
proof -
  have ma: "map_of (pairs a) k = Some v"
    using distinct_key_ids_fst [OF assms(4)] assms(6) by simp
  have mb: "map_of (pairs b) k = Some v"
    using distinct_key_ids_fst [OF assms(3)] assms(5) by simp
  have r: "atoi k \<notin> set (map (atoi \<circ> fst) (filter (removal_rule (pairs a)) (pairs b)))"
  proof
    assume "atoi k \<in> set (map (atoi \<circ> fst) (filter (removal_rule (pairs a)) (pairs b)))"
    then obtain p where p: "p \<in> set (pairs b)" "removal_rule (pairs a) p" "atoi (fst p) = atoi k"
      by auto
    have "p = (k, v)" using key_ids_unique [OF assms(3) p(1) assms(5)] p(3) by simp
    then show False using p(2) ma assms(7) by (simp add: removal_rule_def)
  qed
  have ad: "atoi k \<notin> set (map (fst \<circ> snd)
              (map (\<lambda>p. (img, atoi (fst p), snd p)) (filter (insertion_rule (pairs b)) (pairs a))))"
  proof
    assume "atoi k \<in> set (map (fst \<circ> snd)
              (map (\<lambda>p. (img, atoi (fst p), snd p)) (filter (insertion_rule (pairs b)) (pairs a))))"
    then obtain p where p: "p \<in> set (pairs a)" "insertion_rule (pairs b) p" "atoi (fst p) = atoi k"
      by auto
    have "p = (k, v)" using key_ids_unique [OF assms(4) p(1) assms(6)] p(3) by simp
    then show False using p(2) mb by (simp add: insertion_rule_def)
  qed
  show ?thesis
    using r ad tb_removed_even [OF assms(1,2)] tb_added_even [OF assms(1,2), of img] by blast
qed

lemma get_list_id_rows_unpairs:
  "get_list_id_rows rows acc = acc @ unpairs (map row_pair rows)"
  by (induction rows acc rule: get_list_id_rows.induct) (simp_all add: unpairs_def row_pair_def)

lemma get_list_id_unpairs:
  "dt_metadata_get_list_id valid db img =
     (if valid img then unpairs (map row_pair (filter (\<lambda>(i, k, val). i = img) db)) else [])"
  by (simp add: dt_metadata_get_list_id_def get_list_id_rows_unpairs)

lemma get_list_id_even: "even (length (dt_metadata_get_list_id valid db img))"
  by (simp add: get_list_id_unpairs length_unpairs)

subsection \<open>Executing a mutation\<close>

lemma tb_added_Some_even:
  "get_tb_added_metadata_string_values img b a = Some x \<Longrightarrow> even (length a)"
  by (induction img b a arbitrary: x rule: get_tb_added_metadata_string_values.induct)
     (auto simp: Let_def split: option.splits if_splits)

lemma pop_undo_execute_even:
  "even (length b) \<Longrightarrow> even (length a) \<Longrightarrow>
   pop_undo_execute valid img b a db =
     Some (bulk_add_metadata
             (map (\<lambda>p. (img, atoi (fst p), snd p)) (filter (insertion_rule (pairs b)) (pairs a)))
             (bulk_remove_metadata valid img
                (map (atoi \<circ> fst) (filter (removal_rule (pairs a)) (pairs b))) db))"
  by (simp add: pop_undo_execute_def tb_removed_even tb_added_even)

lemma metadata_execute_add_total:
  "even (length m) \<Longrightarrow>
   \<exists>db' undo'. metadata_execute valid imgs m undo_on DT_MA_ADD (db, undo) = Some (db', undo') \<and>
      (\<not> undo_on \<longrightarrow> undo' = undo)"
proof (induction imgs arbitrary: db undo)
  case Nil
  show ?case by simp
next
  case (Cons img imgs)
  let ?b = "dt_metadata_get_list_id valid db img"
  obtain a where a: "metadata_add_metadata_to_list ?b m = Some a" "even (length a)"
    using add_even [OF get_list_id_even Cons.prems, of valid db img] by blast
  have ma: "metadata_after DT_MA_ADD ?b m = Some a"
    using a by (simp add: metadata_after_def DT_MA_ADD_def DT_MA_SET_def)
  obtain db1 where db1: "pop_undo_execute valid img ?b a db = Some db1"
    using pop_undo_execute_even [OF get_list_id_even a(2)] by blast
  show ?case
    using Cons.IH [OF Cons.prems, of db1] ma db1 by (auto simp: Let_def)
qed

lemma metadata_execute_no_undo:
  "metadata_execute valid imgs m False action (db, undo) = Some (db', undo') \<Longrightarrow> undo' = undo"
  by (induction imgs arbitrary: db undo) (auto simp: Let_def split: option.splits)

lemma set_import_total:
  "\<exists>st'. dt_metadata_set_import valid flag_imported st img k val = Some st' \<and>
     undo_records st' = undo_records st"
proof -
  have ex: "\<exists>db' undo'. metadata_execute valid [img]
         [printf_d (sint (key md)), cleanup_metadata_value val] False DT_MA_ADD
         (main_meta_data st, []) = Some (db', undo')" for md :: dt_metadata_t
  proof -
    have "even (length [printf_d (sint (key md)), cleanup_metadata_value val])" by simp
    from metadata_execute_add_total [OF this, of valid "[img]" False "main_meta_data st" "[]"]
    show ?thesis by blast
  qed
  show ?thesis
  proof (cases "dt_metadata_get_metadata_by_tagname (metadata_list st) k")
    case None
    then show ?thesis by (simp add: dt_metadata_set_import_def)
  next
    case (Some md)
    obtain db' undo' where "metadata_execute valid [img]
         [printf_d (sint (key md)), cleanup_metadata_value val] False DT_MA_ADD
         (main_meta_data st, []) = Some (db', undo')"
      using ex [of md] by blast
    then show ?thesis using Some by (simp add: dt_metadata_set_import_def Let_def)
  qed
qed

subsection \<open>Clearing\<close>

lemma clear_loop_acc:
  "clear_loop ml acc =
     rev (map (printf_u \<circ> key) (filter (\<lambda>md. \<not> internal md \<and> visible md) ml)) @ acc"
  by (induction ml acc rule: clear_loop.induct) simp_all

lemma remove_keeps_unlisted:
  assumes "even (length b)"
  shows "\<exists>a. metadata_after DT_MA_REMOVE b ks = Some a \<and> even (length a) \<and>
           filter (\<lambda>p. fst p \<notin> set ks) (pairs a) = filter (\<lambda>p. fst p \<notin> set ks) (pairs b)"
proof -
  have "\<forall>k \<in> set ks. \<forall>v. \<not> (\<lambda>p. fst p \<notin> set ks) (k, v)" by simp
  from remove_even [OF assms this]
  show ?thesis
    by (simp add: metadata_after_def DT_MA_REMOVE_def DT_MA_ADD_def DT_MA_SET_def)
qed

lemma execute_remove_entries:
  "\<exists>db' new. metadata_execute valid imgs ks undo_on DT_MA_REMOVE (db, undo) = Some (db', undo @ new) \<and>
     (undo_on \<longrightarrow> map undo_imgid new = imgs) \<and>
     (\<forall>e \<in> set new.
        filter (\<lambda>p. fst p \<notin> set ks) (pairs (undo_after e)) =
        filter (\<lambda>p. fst p \<notin> set ks) (pairs (undo_before e)))"
proof (induction imgs arbitrary: db undo)
  case Nil
  show ?case by simp
next
  case (Cons img imgs)
  let ?b = "dt_metadata_get_list_id valid db img"
  obtain a where a: "metadata_after DT_MA_REMOVE ?b ks = Some a" "even (length a)"
     "filter (\<lambda>p. fst p \<notin> set ks) (pairs a) = filter (\<lambda>p. fst p \<notin> set ks) (pairs ?b)"
    using remove_keeps_unlisted [OF get_list_id_even, of valid db img ks] by blast
  obtain db1 where db1: "pop_undo_execute valid img ?b a db = Some db1"
    using pop_undo_execute_even [OF get_list_id_even a(2)] by blast
  let ?e = "\<lparr>undo_imgid = img, undo_before = ?b, undo_after = a\<rparr>"
  let ?u = "if undo_on then undo @ [?e] else undo"
  obtain db' new where n: "metadata_execute valid imgs ks undo_on DT_MA_REMOVE (db1, ?u) = Some (db', ?u @ new)"
     "undo_on \<longrightarrow> map undo_imgid new = imgs"
     "\<forall>e \<in> set new.
        filter (\<lambda>p. fst p \<notin> set ks) (pairs (undo_after e)) =
        filter (\<lambda>p. fst p \<notin> set ks) (pairs (undo_before e))"
    using Cons.IH [of db1 ?u] by blast
  have step: "metadata_execute valid (img # imgs) ks undo_on DT_MA_REMOVE (db, undo) = Some (db', ?u @ new)"
    using a(1) db1 n(1) by (simp add: Let_def)
  show ?case
  proof (cases undo_on)
    case True
    have "metadata_execute valid (img # imgs) ks undo_on DT_MA_REMOVE (db, undo) = Some (db', undo @ (?e # new))"
      using step True by simp
    moreover have "map undo_imgid (?e # new) = img # imgs" using n(2) True by simp
    moreover have "\<forall>e \<in> set (?e # new).
        filter (\<lambda>p. fst p \<notin> set ks) (pairs (undo_after e)) =
        filter (\<lambda>p. fst p \<notin> set ks) (pairs (undo_before e))"
      using n(3) a(3) by simp
    ultimately show ?thesis
      by (intro exI [of _ db'] exI [of _ "?e # new"]) blast
  next
    case False
    then show ?thesis using step n(3)
      by (intro exI [of _ db'] exI [of _ new]) simp
  qed
qed

lemma word_nonneg_eq:
  assumes "0 \<le> sint (w :: 32 word)" and "nat (sint w) = unat (w' :: 32 word)"
  shows "w = w'"
proof -
  have "sint w < 2 ^ 32" using sint_lt [of w] by simp
  then have "take_bit 32 (sint w) = sint w"
    using assms(1) by (simp add: take_bit_int_eq_self)
  then have "sint w = uint w" using uint_sint [of w] by simp
  then have "nat (uint w) = unat w'" using assms(2) by simp
  then have "unat w = unat w'" by (simp only: unat_eq_nat_uint)
  then show ?thesis by (rule unsigned_word_eqI)
qed

lemma show_nat_inj: "show_nat m = show_nat n \<Longrightarrow> m = n"
  by (metis atoi_show_nat of_nat_eq_iff)

lemma printf_d_eq_printf_u:
  assumes eq: "printf_d (sint (w :: 32 word)) = printf_u w'"
  shows "w = w'"
proof (cases "sint w < 0")
  case True
  obtain c cs where c: "show_nat (unat w') = c # cs" "isdigit c" using show_nat_Cons by blast
  have "c = CHR ''-''" using eq True c(1) by (simp add: printf_d_def printf_u_def)
  then show ?thesis using isdigit_not_special [OF c(2)] by simp
next
  case False
  then have "nat (sint w) = unat w'"
    using eq show_nat_inj by (simp add: printf_d_def printf_u_def)
  then show ?thesis using False word_nonneg_eq by simp
qed

lemma hidden_key_not_listed:
  assumes "distinct (map key ml)" and "md \<in> set ml" and "internal md \<or> \<not> visible md"
  shows "printf_d (sint (key md)) \<notin>
           set (map (printf_u \<circ> key) (filter (\<lambda>md. \<not> internal md \<and> visible md) ml))"
proof
  assume "printf_d (sint (key md)) \<in>
           set (map (printf_u \<circ> key) (filter (\<lambda>md. \<not> internal md \<and> visible md) ml))"
  then obtain md' where md': "md' \<in> set ml" "\<not> internal md'" "visible md'"
      "printf_d (sint (key md)) = printf_u (key md')"
    by auto
  have "key md = key md'" using printf_d_eq_printf_u [OF md'(4)] .
  then have "md = md'" using assms(1,2) md'(1) by (simp add: distinct_map inj_on_def)
  then show False using assms(3) md'(2,3) by simp
qed

lemma clear_total:
  "\<exists>st'. dt_metadata_clear valid st imgs True = Some st' \<and>
      (clear_keys (metadata_list st) \<noteq> [] \<longrightarrow>
         (\<exists>undo. undo_records st' = undo # undo_records st \<and> map undo_imgid undo = imgs \<and>
            (\<forall>e \<in> set undo.
               unlisted (clear_keys (metadata_list st)) (undo_after e) =
               unlisted (clear_keys (metadata_list st)) (undo_before e))))"
proof -
  let ?ks = "clear_keys (metadata_list st)"
  have ks: "rev (clear_loop (metadata_list st) []) = ?ks"
    by (simp add: clear_loop_acc clear_keys_def)
  show ?thesis
  proof (cases "?ks = []")
    case True
    then have "clear_loop (metadata_list st) [] = []" using ks by (metis rev_is_Nil_conv)
    then show ?thesis using True by (simp add: dt_metadata_clear_def)
  next
    case False
    then have ne: "clear_loop (metadata_list st) [] \<noteq> []" using ks by (metis rev.simps(1))
    obtain db' new where n:
      "metadata_execute valid imgs ?ks True DT_MA_REMOVE (main_meta_data st, []) = Some (db', [] @ new)"
      "map undo_imgid new = imgs"
      "\<forall>e \<in> set new.
        filter (\<lambda>p. fst p \<notin> set ?ks) (pairs (undo_after e)) =
        filter (\<lambda>p. fst p \<notin> set ?ks) (pairs (undo_before e))"
      using execute_remove_entries [of valid imgs ?ks True "main_meta_data st" "[]"] by blast
    show ?thesis
      using n ne ks by (simp add: dt_metadata_clear_def Let_def unlisted_def)
  qed
qed

subsection \<open>Applying a diff to the table\<close>

lemma pop_undo_execute_apply:
  assumes "valid img" and "even (length b)" and "even (length a)"
  shows "pop_undo_execute valid img b a db = Some (apply_diff img b a db)"
proof -
  have r: "bulk_remove_metadata valid img (removals b a) db =
        filter (\<lambda>r. \<not> (fst r = img \<and> fst (snd r) \<in> set (removals b a))) db"
    using assms(1) by (auto simp: bulk_remove_metadata_def case_prod_unfold)
  have i: "bulk_add_metadata
             (map (\<lambda>p. (img, atoi (fst p), snd p)) (filter (insertion_rule (pairs b)) (pairs a)))
             db' = db' @ insertions img b a" for db'
    by (simp add: bulk_add_metadata_def insertions_def)
  show ?thesis
    using r i pop_undo_execute_even [OF assms(2,3), of valid img db]
    by (simp add: apply_diff_def removals_def)
qed

lemma read_pairs:
  "valid img \<Longrightarrow> pairs (dt_metadata_get_list_id valid db img) = map row_pair (rows_of img db)"
  by (simp add: get_list_id_unpairs pairs_unpairs rows_of_def case_prod_unfold)

lemma atoi_row_pair: "atoi (fst (row_pair r)) = fst (snd r)"
  by (simp add: row_pair_def atoi_printf_d)

lemma insertion_removed:
  assumes "p \<in> set (pairs x)" and "insertion_rule (pairs y) p"
  shows "atoi (fst p) \<in> set (removals x y)"
proof -
  have "removal_rule (pairs y) p"
    using assms(2) by (auto simp: insertion_rule_def removal_rule_def split: option.splits)
  then show ?thesis using assms(1) by (auto simp: removals_def)
qed

lemma keep_insertions_empty:
  "filter (\<lambda>r. \<not> (fst r = img \<and> fst (snd r) \<in> set (removals x y))) (insertions img y x) = []"
  by (auto simp: filter_empty_conv insertions_def insertion_removed)

lemma not_removed_pair:
  assumes "p \<in> set (pairs x)" and "atoi (fst p) \<notin> set (removals x y)"
  shows "map_of (pairs y) (fst p) = Some (snd p) \<and> snd p \<noteq> []"
proof -
  have "\<not> removal_rule (pairs y) p"
    using assms by (auto simp: removals_def)
  then show ?thesis by (auto simp: removal_rule_def split: option.splits)
qed

lemma kept_row_stays:
  assumes v: "valid img" and b: "b = dt_metadata_get_list_id valid db img"
    and d: "distinct (key_ids a)"
    and r: "r \<in> set db" "fst r = img" "fst (snd r) \<notin> set (removals b a)"
  shows "fst (snd r) \<notin> set (removals a b)"
proof
  assume in_ab: "fst (snd r) \<in> set (removals a b)"
  have pb: "pairs b = map row_pair (rows_of img db)" using v b by (simp add: read_pairs)
  have rb: "row_pair r \<in> set (pairs b)" using pb r(1,2) by (simp add: rows_of_def)
  have ra: "map_of (pairs a) (fst (row_pair r)) = Some (snd (row_pair r))" "snd (row_pair r) \<noteq> []"
    using not_removed_pair [OF rb, of a] r(3) by (simp_all add: atoi_row_pair)
  have ria: "row_pair r \<in> set (pairs a)" using ra(1) by (metis map_of_SomeD prod.collapse)
  obtain q where q: "q \<in> set (pairs a)" "removal_rule (pairs b) q" "atoi (fst q) = fst (snd r)"
    using in_ab by (auto simp: removals_def)
  have qr: "q = row_pair r"
    using key_ids_unique [OF d q(1) ria] q(3) by (simp add: atoi_row_pair)
  obtain v'' where v'': "map_of (pairs b) (fst (row_pair r)) = Some v''"
    using rb by (cases "map_of (pairs b) (fst (row_pair r))")
      (auto simp: map_of_eq_None_iff intro: rev_image_eqI)
  then have "(fst (row_pair r), v'') \<in> set (pairs b)" by (rule map_of_SomeD)
  then obtain r' where r': "r' \<in> set (rows_of img db)" "row_pair r' = (fst (row_pair r), v'')"
    using pb by auto
  have key': "fst (snd r') = fst (snd r)"
    using r'(2) atoi_row_pair [of r'] atoi_row_pair [of r] by simp
  have "row_pair r' \<in> set (pairs b)" using pb r'(1) by simp
  from not_removed_pair [OF this, of a] r(3) key'
  have "map_of (pairs a) (fst (row_pair r')) = Some (snd (row_pair r'))"
    by (simp add: atoi_row_pair)
  then have "v'' = snd (row_pair r)" using r'(2) ra(1) by simp
  then have "\<not> removal_rule (pairs b) (row_pair r)"
    using v'' ra(2) by (simp add: removal_rule_def)
  then show False using q(2) qr by simp
qed

lemma undo_redo_restores:
  assumes v: "valid img" and b: "b = dt_metadata_get_list_id valid db img"
    and d: "distinct (key_ids a)"
  shows "apply_diff img b a (apply_diff img a b (apply_diff img b a db)) = apply_diff img b a db"
proof -
  let ?Pba = "\<lambda>r. \<not> (fst r = img \<and> fst (snd r) \<in> set (removals b a))"
  let ?Pab = "\<lambda>r. \<not> (fst r = img \<and> fst (snd r) \<in> set (removals a b))"
  have c: "filter ?Pba (filter ?Pab (filter ?Pba db)) = filter ?Pba db"
    using kept_row_stays [OF v b d] by (auto simp: filter_id_conv intro: filter_cong)
  have "apply_diff img b a (apply_diff img a b (apply_diff img b a db)) =
      filter ?Pba (filter ?Pab (filter ?Pba db)) @ insertions img b a"
    unfolding apply_diff_def filter_append keep_insertions_empty by simp
  then show ?thesis using c by (simp add: apply_diff_def)
qed

lemma rows_of_apply_diff:
  "rows_of img (apply_diff img b a db) =
     filter (\<lambda>r. fst (snd r) \<notin> set (removals b a)) (rows_of img db) @ insertions img b a"
proof -
  have "filter (\<lambda>r. fst r = img) (insertions img b a) = insertions img b a"
    by (auto simp: insertions_def filter_id_conv)
  moreover have "filter (\<lambda>r. fst r = img)
      (filter (\<lambda>r. \<not> (fst r = img \<and> fst (snd r) \<in> set (removals b a))) db) =
      filter (\<lambda>r. fst (snd r) \<notin> set (removals b a)) (filter (\<lambda>r. fst r = img) db)"
    by (auto intro: filter_cong)
  ultimately show ?thesis by (simp add: rows_of_def apply_diff_def)
qed

lemma others_apply_diff:
  "filter (\<lambda>r. fst r \<noteq> img) (apply_diff img b a db) = filter (\<lambda>r. fst r \<noteq> img) db"
proof -
  have "filter (\<lambda>r. fst r \<noteq> img) (insertions img b a) = []"
    by (auto simp: insertions_def filter_empty_conv)
  moreover have "filter (\<lambda>r. fst r \<noteq> img)
      (filter (\<lambda>r. \<not> (fst r = img \<and> fst (snd r) \<in> set (removals b a))) db) =
      filter (\<lambda>r. fst r \<noteq> img) db"
    by (auto intro: filter_cong)
  ultimately show ?thesis by (simp add: apply_diff_def)
qed

lemma persisted_rows:
  assumes v: "valid img" and b: "b = dt_metadata_get_list_id valid db img"
    and da: "distinct (key_ids a)" and db: "distinct (key_ids b)"
  shows "set (rows_of img (apply_diff img b a db)) =
           set (map (\<lambda>p. (img, atoi (fst p), Some (snd p)))
                  (filter (\<lambda>p. snd p \<noteq> []) (pairs a)))"
proof -
  have pb: "pairs b = map row_pair (rows_of img db)" using v b by (simp add: read_pairs)
  have kept: "r \<in> set (map (\<lambda>p. (img, atoi (fst p), Some (snd p)))
                  (filter (\<lambda>p. snd p \<noteq> []) (pairs a)))"
    if r: "r \<in> set (rows_of img db)" "fst (snd r) \<notin> set (removals b a)" for r
  proof -
    have rb: "row_pair r \<in> set (pairs b)" using pb r(1) by simp
    have ra: "map_of (pairs a) (fst (row_pair r)) = Some (snd (row_pair r))"
        "snd (row_pair r) \<noteq> []"
      using not_removed_pair [OF rb, of a] r(2) by (simp_all add: atoi_row_pair)
    have ria: "row_pair r \<in> set (pairs a)" using ra(1) by (metis map_of_SomeD prod.collapse)
    have val: "snd (snd r) = Some (snd (row_pair r))"
      using ra(2) by (cases "snd (snd r)") (simp_all add: row_pair_def)
    have "r = (img, atoi (fst (row_pair r)), Some (snd (row_pair r)))"
      using r(1) val by (simp add: atoi_row_pair rows_of_def prod_eq_iff)
    then show ?thesis using ria ra(2) by (metis (mono_tags, lifting) image_eqI list.set_map mem_Collect_eq set_filter)
  qed
  have ins: "set (insertions img b a) \<subseteq> set (map (\<lambda>p. (img, atoi (fst p), Some (snd p)))
                  (filter (\<lambda>p. snd p \<noteq> []) (pairs a)))"
    by (auto simp: insertions_def insertion_rule_def)
  have bck: "(img, atoi (fst p), Some (snd p)) \<in> set (rows_of img (apply_diff img b a db))"
    if p: "p \<in> set (pairs a)" "snd p \<noteq> []" for p
  proof (cases "insertion_rule (pairs b) p")
    case True
    then show ?thesis using p(1) by (auto simp: rows_of_apply_diff insertions_def)
  next
    case False
    then have mb: "map_of (pairs b) (fst p) = Some (snd p)"
      using p(2) by (auto simp: insertion_rule_def split: option.splits)
    then have pinb: "p \<in> set (pairs b)" by (metis map_of_SomeD prod.collapse)
    then obtain r where r: "r \<in> set (rows_of img db)" "row_pair r = p" using pb by auto
    have val: "snd (snd r) = Some (snd p)"
      using p(2) r(2) by (cases "snd (snd r)") (auto simp: row_pair_def)
    have req: "r = (img, atoi (fst p), Some (snd p))"
      using r val atoi_row_pair [of r] by (simp add: rows_of_def prod_eq_iff)
    have ma: "map_of (pairs a) (fst p) = Some (snd p)"
      using distinct_key_ids_fst [OF da] p(1) by (metis map_of_is_SomeI prod.collapse)
    have "atoi (fst p) \<notin> set (removals b a)"
    proof
      assume "atoi (fst p) \<in> set (removals b a)"
      then obtain q where q: "q \<in> set (pairs b)" "removal_rule (pairs a) q" "atoi (fst q) = atoi (fst p)"
        by (auto simp: removals_def)
      have "q = p" using key_ids_unique [OF db q(1) pinb q(3)] .
      then show False using q(2) ma p(2) by (simp add: removal_rule_def)
    qed
    then show ?thesis using r(1) req atoi_row_pair [of r] r(2) by (auto simp: rows_of_apply_diff)
  qed
  show ?thesis
  proof (intro equalityI subsetI)
    fix r assume "r \<in> set (rows_of img (apply_diff img b a db))"
    then consider "r \<in> set (rows_of img db) \<and> fst (snd r) \<notin> set (removals b a)"
      | "r \<in> set (insertions img b a)"
      by (auto simp: rows_of_apply_diff)
    then show "r \<in> set (map (\<lambda>p. (img, atoi (fst p), Some (snd p)))
                  (filter (\<lambda>p. snd p \<noteq> []) (pairs a)))"
    proof cases
      case 1
      then show ?thesis using kept [of r] by blast
    next
      case 2
      then show ?thesis using ins by blast
    qed
  next
    fix r assume "r \<in> set (map (\<lambda>p. (img, atoi (fst p), Some (snd p)))
                  (filter (\<lambda>p. snd p \<noteq> []) (pairs a)))"
    then show "r \<in> set (rows_of img (apply_diff img b a db))"
      using bck by auto
  qed
qed

lemma execute_single:
  assumes "metadata_execute valid [img] m True action (db0, []) = Some (db1, [e])"
  shows "undo_imgid e = img \<and> undo_before e = dt_metadata_get_list_id valid db0 img \<and>
         even (length (undo_after e)) \<and>
         metadata_after action (undo_before e) m = Some (undo_after e) \<and>
         pop_undo_execute valid img (undo_before e) (undo_after e) db0 = Some db1"
proof -
  let ?b = "dt_metadata_get_list_id valid db0 img"
  obtain a where a: "metadata_after action ?b m = Some a"
    using assms by (auto simp: Let_def split: option.splits)
  obtain d where d: "pop_undo_execute valid img ?b a db0 = Some d"
    using assms a by (auto simp: Let_def split: option.splits)
  have e: "db1 = d" "e = \<lparr>undo_imgid = img, undo_before = ?b, undo_after = a\<rparr>"
    using assms a d by (simp_all add: Let_def)
  have "even (length a)"
    using d tb_added_Some_even [of img ?b a]
    by (auto simp: pop_undo_execute_def split: option.splits)
  then show ?thesis using a d e by simp
qed

lemma pop_undo_single:
  "pop_undo valid DT_UNDO_METADATA [e] action (db, imgs) =
     map_option (\<lambda>db'. (db', undo_imgid e # imgs))
       (pop_undo_execute valid (undo_imgid e)
          (if action = DT_ACTION_UNDO then undo_after e else undo_before e)
          (if action = DT_ACTION_UNDO then undo_before e else undo_after e) db)"
  by (simp add: pop_undo_def Let_def split: option.splits)

lemma undo_redo_entry:
  assumes v: "valid img"
    and x: "metadata_execute valid [img] m True action (db0, []) = Some (db1, [e])"
    and d: "distinct (key_ids (undo_after e))"
  shows "\<exists>db2. pop_undo valid DT_UNDO_METADATA [e] DT_ACTION_UNDO (db1, imgs) = Some (db2, img # imgs) \<and>
           pop_undo valid DT_UNDO_METADATA [e] DT_ACTION_REDO (db2, img # imgs) = Some (db1, img # img # imgs)"
    and "distinct (key_ids (undo_before e)) \<Longrightarrow>
         set (rows_of img db1) =
           set (map (\<lambda>p. (img, atoi (fst p), Some (snd p)))
                  (filter (\<lambda>p. snd p \<noteq> []) (pairs (undo_after e))))"
proof -
  let ?b = "undo_before e" and ?a = "undo_after e"
  have s: "undo_imgid e = img" "?b = dt_metadata_get_list_id valid db0 img" "even (length ?a)"
      "pop_undo_execute valid img ?b ?a db0 = Some db1"
    using execute_single [OF x] by blast+
  have eb: "even (length ?b)" using s(2) get_list_id_even by simp
  have db1: "db1 = apply_diff img ?b ?a db0"
    using s(4) pop_undo_execute_apply [of valid img ?b ?a db0] v eb s(3) by simp
  have u: "pop_undo valid DT_UNDO_METADATA [e] DT_ACTION_UNDO (db1, imgs) =
             Some (apply_diff img ?a ?b db1, img # imgs)"
    using pop_undo_execute_apply [of valid img ?a ?b db1] v eb s(3) s(1) by (simp add: pop_undo_single)
  have r: "pop_undo valid DT_UNDO_METADATA [e] DT_ACTION_REDO (apply_diff img ?a ?b db1, img # imgs) =
             Some (apply_diff img ?b ?a (apply_diff img ?a ?b db1), img # img # imgs)"
    using pop_undo_execute_apply [of valid img ?b ?a "apply_diff img ?a ?b db1"] v eb s(3) s(1)
    by (simp add: pop_undo_single)
  have "apply_diff img ?b ?a (apply_diff img ?a ?b db1) = db1"
    using undo_redo_restores [of valid img ?b db0 ?a] v s(2) d db1 by simp
  then show "\<exists>db2. pop_undo valid DT_UNDO_METADATA [e] DT_ACTION_UNDO (db1, imgs) = Some (db2, img # imgs) \<and>
           pop_undo valid DT_UNDO_METADATA [e] DT_ACTION_REDO (db2, img # imgs) = Some (db1, img # img # imgs)"
    using u r by simp
  show "set (rows_of img db1) =
           set (map (\<lambda>p. (img, atoi (fst p), Some (snd p)))
                  (filter (\<lambda>p. snd p \<noteq> []) (pairs (undo_after e))))"
    if "distinct (key_ids (undo_before e))"
    using persisted_rows [of valid img ?b db0 ?a] v s(2) d that db1 by simp
qed

subsection \<open>Cleaning a value\<close>

lemma strip_trailing_spaces_rev:
  "strip_trailing_spaces v = rev (dropWhile (\<lambda>c. c = CHR '' '') (rev v))"
proof (induction v rule: strip_trailing_spaces.induct)
  case (1 v)
  show ?case
  proof (cases v rule: rev_cases)
    case Nil
    then show ?thesis by (simp add: strip_trailing_spaces.simps [of "[]"])
  next
    case (snoc ys y)
    show ?thesis
    proof (cases "y = CHR '' ''")
      case True
      have "strip_trailing_spaces (ys @ [CHR '' '']) = strip_trailing_spaces ys"
        by (subst strip_trailing_spaces.simps) simp
      then have "strip_trailing_spaces v = strip_trailing_spaces ys"
        using snoc True by simp
      moreover have "strip_trailing_spaces ys = rev (dropWhile (\<lambda>c. c = CHR '' '') (rev ys))"
        using 1 snoc True by simp
      ultimately show ?thesis using snoc True by simp
    next
      case False
      have "strip_trailing_spaces (ys @ [y]) = ys @ [y]"
        using False by (subst strip_trailing_spaces.simps) simp
      then show ?thesis using snoc False by simp
    qed
  qed
qed

lemma skip_leading_spaces_dropWhile:
  "skip_leading_spaces v = dropWhile (\<lambda>c. c = CHR '' '') v"
  by (induction v) simp_all

lemma cleanup_Some:
  "cleanup_metadata_value (Some v) =
     dropWhile (\<lambda>c. c = CHR '' '') (rev (dropWhile (\<lambda>c. c = CHR '' '') (rev v)))"
  by (simp add: cleanup_metadata_value_def strip_trailing_spaces_rev skip_leading_spaces_dropWhile)

lemma dropWhile_all: "(\<forall>x \<in> set (dropWhile P xs). P x) = (\<forall>x \<in> set xs. P x)"
proof
  assume a: "\<forall>x \<in> set (dropWhile P xs). P x"
  have "dropWhile P xs = []"
  proof (rule ccontr)
    assume n: "dropWhile P xs \<noteq> []"
    then have "\<not> P (hd (dropWhile P xs))" by (rule hd_dropWhile)
    moreover have "hd (dropWhile P xs) \<in> set (dropWhile P xs)"
      using n by simp
    ultimately show False using a by blast
  qed
  then show "\<forall>x \<in> set xs. P x" by simp
next
  assume "\<forall>x \<in> set xs. P x"
  then show "\<forall>x \<in> set (dropWhile P xs). P x" by (meson set_dropWhileD)
qed

lemma cleanup_empty_iff:
  "(cleanup_metadata_value (Some v) = []) = (\<forall>c \<in> set v. c = CHR '' '')"
  using dropWhile_all [of "\<lambda>c. c = CHR '' ''" "rev v"]
  by (simp add: cleanup_Some)

lemma dropWhile_rev_fixed:
  assumes "w = dropWhile P (rev (dropWhile P (rev v)))"
  shows "dropWhile P (rev (dropWhile P (rev w))) = w"
proof (cases "w = []")
  case True
  then show ?thesis by simp
next
  case False
  let ?u = "rev (dropWhile P (rev v))"
  have w: "w = dropWhile P ?u" using assms by simp
  have une: "?u \<noteq> []"
  proof
    assume "?u = []"
    then have "w = []" using w by (simp only: dropWhile.simps)
    then show False using False by simp
  qed
  then have "dropWhile P (rev v) \<noteq> []" by (simp only: rev_is_Nil_conv not_False_eq_True)
  then have h: "\<not> P (hd (dropWhile P (rev v)))" by (rule hd_dropWhile)
  have lu: "last ?u = hd (dropWhile P (rev v))" using une by (simp add: last_rev)
  have "?u = takeWhile P ?u @ w" using w by simp
  then have "last ?u = last w" using False by (metis last_appendR)
  then have "\<not> P (last w)" using h lu by simp
  then have "\<not> P (hd (rev w))" using False by (simp add: hd_rev)
  then have "dropWhile P (rev w) = rev w" using False by (cases "rev w") auto
  moreover have "dropWhile P w = w" using w by simp
  ultimately show ?thesis by simp
qed

lemma cleanup_idem:
  "cleanup_metadata_value (Some (cleanup_metadata_value val)) = cleanup_metadata_value val"
proof (cases val)
  case None
  then show ?thesis by (simp add: cleanup_metadata_value_def)
next
  case (Some v)
  then show ?thesis using dropWhile_rev_fixed [OF refl, of "\<lambda>c. c = CHR '' ''" v]
    by (simp add: cleanup_Some)
qed

lemma set_list_loop_even:
  "even (length kv) \<Longrightarrow>
   set_list_loop ml kv acc =
     Some (acc @ unpairs
       (map (\<lambda>p. (printf_d (sint (dt_metadata_get_keyid ml (fst p))),
                  cleanup_metadata_value (snd p)))
          (filter (\<lambda>p. sint (dt_metadata_get_keyid ml (fst p)) \<noteq> - 1 \<and> snd p \<noteq> None)
             (pairs kv))))"
proof (induction ml kv acc rule: set_list_loop.induct)
  case (1 ml metadata)
  show ?case by (simp add: unpairs_def Let_def)
next
  case (2 ml k metadata)
  then show ?case by simp
next
  case (3 ml k val kv metadata)
  have e: "even (length kv)" using "3.prems" by simp
  show ?case
  proof (cases "sint (dt_metadata_get_keyid ml k) \<noteq> - 1 \<and> val \<noteq> None")
    case True
    then show ?thesis using "3.IH"(1) [OF refl _ _ e] by (simp add: unpairs_def Let_def)
  next
    case False
    then show ?thesis using "3.IH"(2) [OF refl _ _ e] "3.IH"(3) [OF refl _ e]
      by (auto simp: unpairs_def Let_def)
  qed
qed

lemma overwrite_first_fst: "map fst (overwrite_first k v ps) = map fst ps"
  by (induction ps) auto

lemma overwrite_first_mem: "k \<in> set (map fst ps) \<Longrightarrow> (k, v) \<in> set (overwrite_first k v ps)"
proof (induction ps)
  case Nil
  then show ?case by simp
next
  case (Cons q ps)
  show ?case
  proof (cases "fst q = k")
    case True
    then show ?thesis by (cases q) simp
  next
    case False
    then have "k \<in> set (map fst ps)" using Cons.prems by auto
    then show ?thesis using Cons.IH False by (cases q) simp
  qed
qed

lemma merge_pair_mem: "p \<in> set (merge_pair ps p)"
  using overwrite_first_mem [of "fst p" ps "snd p"] by (simp add: merge_pair_def)

lemma key_ids_read:
  "valid img \<Longrightarrow> key_ids (dt_metadata_get_list_id valid db img) = map (fst \<circ> snd) (rows_of img db)"
  by (simp add: key_ids_def read_pairs atoi_row_pair comp_def)

lemma set_idem:
  "dt_metadata_set valid st img k val undo_on =
   dt_metadata_set valid st img k (Some (cleanup_metadata_value val)) undo_on"
  unfolding dt_metadata_set_def cleanup_idem by (rule refl)

lemma set_import_idem:
  "dt_metadata_set_import valid flag_imported st img k val =
   dt_metadata_set_import valid flag_imported st img k (Some (cleanup_metadata_value val))"
  unfolding dt_metadata_set_import_def cleanup_idem by (rule refl)

subsection \<open>Prefix lookup\<close>

lemma strncmp_prefix: "(strncmp k t (length t) = 0) = prefix t k"
proof (induction t arbitrary: k)
  case Nil
  show ?case by simp
next
  case (Cons d ds)
  show ?case
  proof (cases k)
    case Nil
    then show ?thesis by simp
  next
    case (Cons c cs)
    then show ?thesis using Cons.IH [of cs] by simp
  qed
qed

lemma get_keyid_loop_find:
  "get_keyid_loop ms k r =
     (case find (\<lambda>m. prefix (tagname m) k) ms of None \<Rightarrow> r | Some m \<Rightarrow> key m)"
  by (induction ms) (simp_all add: strncmp_prefix strlen_def)

subsection \<open>Clearing in the table\<close>

lemma lfc_remove_subset:
  "even (length l) \<Longrightarrow> list_find_custom l k = Some i \<Longrightarrow>
   set (pairs (take i l @ drop (i + 2) l)) \<subseteq> set (pairs l) \<and>
   (distinct (map fst (pairs l)) \<longrightarrow> distinct (map fst (pairs (take i l @ drop (i + 2) l))))"
proof (induction l k arbitrary: i rule: list_find_custom.induct)
  case (1 d)
  then show ?case by simp
next
  case (2 k d)
  then show ?case by simp
next
  case (3 k v rest d)
  show ?case
  proof (cases "k = d")
    case True
    then show ?thesis using "3.prems" by auto
  next
    case False
    then obtain j where j: "list_find_custom rest d = Some j" "i = j + 2"
      using "3.prems"(2) by auto
    have e: "even (length rest)" using "3.prems"(1) by simp
    have ih: "set (pairs (take j rest @ drop (j + 2) rest)) \<subseteq> set (pairs rest)"
      "distinct (map fst (pairs rest)) \<longrightarrow>
         distinct (map fst (pairs (take j rest @ drop (j + 2) rest)))"
      using "3.IH" [OF False e j(1)] by auto
    have eq: "take i (k # v # rest) @ drop (i + 2) (k # v # rest) =
              k # v # (take j rest @ drop (j + 2) rest)"
      using j(2) by simp
    have nk: "k \<notin> fst ` set (pairs (take j rest @ drop (j + 2) rest))"
      if "k \<notin> fst ` set (pairs rest)"
      using that ih(1) by blast
    show ?thesis unfolding eq using ih nk by auto
  qed
qed

lemma remove_subset:
  "even (length l) \<Longrightarrow> metadata_remove_metadata_from_list l ks = Some l' \<Longrightarrow>
   set (pairs l') \<subseteq> set (pairs l) \<and>
   (distinct (map fst (pairs l)) \<longrightarrow> distinct (map fst (pairs l')))"
proof (induction l ks rule: metadata_remove_metadata_from_list.induct)
  case (1 list)
  then show ?case by simp
next
  case (2 list k m)
  show ?case
  proof (cases "list_find_custom list k")
    case None
    then show ?thesis using 2 by simp
  next
    case (Some i)
    let ?l = "take i list @ drop (i + 2) list"
    have r: "Suc i < length list" "even (length ?l)"
      using lfc_remove [OF "2.prems"(1) Some, of "\<lambda>p. False"] by auto
    have s: "set (pairs ?l) \<subseteq> set (pairs list)"
      "distinct (map fst (pairs list)) \<longrightarrow> distinct (map fst (pairs ?l))"
      using lfc_remove_subset [OF "2.prems"(1) Some] by auto
    have "metadata_remove_metadata_from_list ?l m = Some l'"
      using "2.prems"(2) Some r(1) by simp
    from "2.IH"(2) [OF Some r(1) r(2) this] s show ?thesis by blast
  qed
qed

lemma removal_only_rows:
  assumes v: "valid img" and b: "b = dt_metadata_get_list_id valid db img"
    and a: "metadata_after DT_MA_REMOVE b ks = Some a"
    and d: "distinct (map (fst \<circ> snd) (rows_of img db))"
  shows "rows_of img (apply_diff img b a db) =
           filter (\<lambda>r. fst (snd r) \<notin> set (removals b a)) (rows_of img db)"
    and "r \<in> set (rows_of img db) \<Longrightarrow> printf_d (fst (snd r)) \<notin> set ks \<Longrightarrow>
         snd (row_pair r) \<noteq> [] \<Longrightarrow> fst (snd r) \<notin> set (removals b a)"
proof -
  have eb: "even (length b)" using b get_list_id_even by simp
  have ra: "metadata_remove_metadata_from_list b ks = Some a"
    using a by (simp add: metadata_after_def DT_MA_REMOVE_def DT_MA_ADD_def DT_MA_SET_def)
  have db: "distinct (key_ids b)" using d v b by (simp add: key_ids_read)
  have dfb: "distinct (map fst (pairs b))" using db by (rule distinct_key_ids_fst)
  have sub: "set (pairs a) \<subseteq> set (pairs b)" and dfa: "distinct (map fst (pairs a))"
    using remove_subset [OF eb ra] dfb by auto
  have "filter (insertion_rule (pairs b)) (pairs a) = []"
  proof -
    have "\<not> insertion_rule (pairs b) p" if "p \<in> set (pairs a)" for p
    proof -
      have "p \<in> set (pairs b)" using that sub by blast
      then have "map_of (pairs b) (fst p) = Some (snd p)" using dfb by simp
      then show ?thesis by (simp add: insertion_rule_def)
    qed
    then show ?thesis by (simp add: filter_empty_conv)
  qed
  then have "insertions img b a = []" by (simp add: insertions_def)
  then show "rows_of img (apply_diff img b a db) =
           filter (\<lambda>r. fst (snd r) \<notin> set (removals b a)) (rows_of img db)"
    by (simp add: rows_of_apply_diff)
  show "fst (snd r) \<notin> set (removals b a)"
    if r: "r \<in> set (rows_of img db)" "printf_d (fst (snd r)) \<notin> set ks" "snd (row_pair r) \<noteq> []"
  proof
    assume "fst (snd r) \<in> set (removals b a)"
    then obtain q where q: "q \<in> set (pairs b)" "removal_rule (pairs a) q" "atoi (fst q) = fst (snd r)"
      by (auto simp: removals_def)
    have rb: "row_pair r \<in> set (pairs b)" using v b r(1) by (simp add: read_pairs)
    have qr: "q = row_pair r"
      using key_ids_unique [OF db q(1) rb] q(3) by (simp add: atoi_row_pair)
    have "fst (row_pair r) \<notin> set ks" using r(2) by (simp add: row_pair_def)
    then have "row_pair r \<in> set (filter (\<lambda>p. fst p \<notin> set ks) (pairs b))" using rb by simp
    moreover have "filter (\<lambda>p. fst p \<notin> set ks) (pairs a) = filter (\<lambda>p. fst p \<notin> set ks) (pairs b)"
      using remove_keeps_unlisted [OF eb, of ks] a by auto
    ultimately have "row_pair r \<in> set (filter (\<lambda>p. fst p \<notin> set ks) (pairs a))" by simp
    then have "row_pair r \<in> set (pairs a)" by simp
    then have "map_of (pairs a) (fst (row_pair r)) = Some (snd (row_pair r))" using dfa by simp
    then show False using q(2) qr r(3) by (simp add: removal_rule_def)
  qed
qed

lemma clear_rows:
  assumes v: "valid img"
    and d: "distinct (map (fst \<circ> snd) (rows_of img (main_meta_data st)))"
  shows "\<exists>st'. dt_metadata_clear valid st [img] undo_on = Some st' \<and>
           set (rows_of img (main_meta_data st')) \<subseteq> set (rows_of img (main_meta_data st)) \<and>
           (\<forall>r \<in> set (rows_of img (main_meta_data st)).
              printf_d (fst (snd r)) \<notin> set (clear_keys (metadata_list st)) \<and>
              snd (row_pair r) \<noteq> [] \<longrightarrow> r \<in> set (rows_of img (main_meta_data st')))"
proof -
  let ?ks = "clear_keys (metadata_list st)"
  let ?db = "main_meta_data st"
  let ?b = "dt_metadata_get_list_id valid ?db img"
  have ks: "rev (clear_loop (metadata_list st) []) = ?ks"
    by (simp add: clear_loop_acc clear_keys_def)
  show ?thesis
  proof (cases "?ks = []")
    case True
    then have "clear_loop (metadata_list st) [] = []" using ks by (metis rev_is_Nil_conv)
    then show ?thesis by (simp add: dt_metadata_clear_def)
  next
    case False
    then have ne: "clear_loop (metadata_list st) [] \<noteq> []" using ks by (metis rev.simps(1))
    obtain a where a: "metadata_after DT_MA_REMOVE ?b ?ks = Some a" "even (length a)"
      using remove_keeps_unlisted [OF get_list_id_even, of valid ?db img ?ks] by blast
    have pe: "pop_undo_execute valid img ?b a ?db = Some (apply_diff img ?b a ?db)"
      using pop_undo_execute_apply [of valid img ?b a ?db] v get_list_id_even a(2) by simp
    have ex: "metadata_execute valid [img] ?ks undo_on DT_MA_REMOVE (?db, []) =
        Some (apply_diff img ?b a ?db,
              if undo_on then [\<lparr>undo_imgid = img, undo_before = ?b, undo_after = a\<rparr>] else [])"
      using a(1) pe by (simp add: Let_def)
    have rows: "rows_of img (apply_diff img ?b a ?db) =
           filter (\<lambda>r. fst (snd r) \<notin> set (removals ?b a)) (rows_of img ?db)"
      using removal_only_rows(1) [of valid img ?b ?db ?ks a] v a(1) d by simp
    have keep: "\<forall>r \<in> set (rows_of img ?db).
              printf_d (fst (snd r)) \<notin> set ?ks \<and> snd (row_pair r) \<noteq> [] \<longrightarrow>
              fst (snd r) \<notin> set (removals ?b a)"
      using removal_only_rows(2) [of valid img ?b ?db ?ks a] v a(1) d by blast
    have st': "dt_metadata_clear valid st [img] undo_on =
        Some (st\<lparr>main_meta_data := apply_diff img ?b a ?db,
                 undo_records := (if undo_on
                    then [\<lparr>undo_imgid = img, undo_before = ?b, undo_after = a\<rparr>] # undo_records st
                    else undo_records st)\<rparr>)"
      using ex ne ks by (simp add: dt_metadata_clear_def Let_def del: metadata_execute.simps)
    show ?thesis using st' rows keep by auto
  qed
qed

subsection \<open>Registering a definition\<close>

lemma add_duplicate:
  assumes "tagname metadata \<in> set (map tagname (data_meta_data st))"
  shows "fst (dt_metadata_add_metadata flag_imported st metadata) = True \<and>
         length (metadata_list (snd (snd (dt_metadata_add_metadata flag_imported st metadata))))
           = Suc (length (metadata_list st))"
proof -
  obtain r where "find (\<lambda>r. tagname r = tagname metadata) (data_meta_data st) = Some r"
    using assms by (cases "find (\<lambda>r. tagname r = tagname metadata) (data_meta_data st)")
      (auto simp: find_None_iff)
  then show ?thesis using assms
    by (simp add: dt_metadata_add_metadata_def insert_meta_data_def
        set_default_import_flag_def Let_def)
qed

subsection \<open>Replaying a group of undo entries\<close>

lemma rows_of_step:
  "rows_of j (apply_diff img x y db) =
     (if j = img
      then filter (\<lambda>r. fst (snd r) \<notin> set (removals x y)) (rows_of img db) @ insertions img x y
      else rows_of j db)"
proof (cases "j = img")
  case True
  then show ?thesis by (simp add: rows_of_apply_diff)
next
  case False
  have "filter (\<lambda>r. fst r = j) (insertions img x y) = []"
    using False by (auto simp: insertions_def filter_empty_conv)
  moreover have "filter (\<lambda>r. fst r = j)
      (filter (\<lambda>r. \<not> (fst r = img \<and> fst (snd r) \<in> set (removals x y))) db) =
      filter (\<lambda>r. fst r = j) db"
    using False by (auto intro: filter_cong)
  ultimately show ?thesis using False by (simp add: rows_of_def apply_diff_def)
qed

lemma read_rows_cong:
  "rows_of img db = rows_of img db' \<Longrightarrow>
   dt_metadata_get_list_id valid db img = dt_metadata_get_list_id valid db' img"
  by (simp add: get_list_id_unpairs rows_of_def case_prod_unfold)

text \<open>replaying a list of entries is a fold of apply_diff\<close>

lemma pop_undo_loop_fold:
  assumes "\<forall>e \<in> set es. valid (undo_imgid e) \<and> even (length (undo_before e)) \<and>
             even (length (undo_after e))"
  shows "pop_undo_loop valid es action (db, imgs) =
     Some (foldl (\<lambda>d e. apply_diff (undo_imgid e)
                    (if action = DT_ACTION_UNDO then undo_after e else undo_before e)
                    (if action = DT_ACTION_UNDO then undo_before e else undo_after e) d) db es,
           rev (map undo_imgid es) @ imgs)"
  using assms
proof (induction es arbitrary: db imgs)
  case Nil
  show ?case by simp
next
  case (Cons e es)
  have v: "valid (undo_imgid e)" "even (length (undo_before e))" "even (length (undo_after e))"
    using Cons.prems by auto
  have "pop_undo_execute valid (undo_imgid e)
          (if action = DT_ACTION_UNDO then undo_after e else undo_before e)
          (if action = DT_ACTION_UNDO then undo_before e else undo_after e) db =
        Some (apply_diff (undo_imgid e)
          (if action = DT_ACTION_UNDO then undo_after e else undo_before e)
          (if action = DT_ACTION_UNDO then undo_before e else undo_after e) db)"
    using pop_undo_execute_apply [of valid "undo_imgid e" _ _ db] v by simp
  then show ?case using Cons.IH [of _ "undo_imgid e # imgs"] Cons.prems
    by (simp add: Let_def)
qed

text \<open>a fold over entries of distinct entities changes the rows of an entity at most once\<close>

lemma fold_rows_other:
  assumes "j \<notin> set (map undo_imgid es)"
  shows "rows_of j (foldl (\<lambda>d e. apply_diff (undo_imgid e) (X e) (Y e) d) db es) = rows_of j db"
  using assms by (induction es arbitrary: db) (simp_all add: rows_of_step)

lemma fold_rows_one:
  assumes "distinct (map undo_imgid es)" and "e \<in> set es"
  shows "rows_of (undo_imgid e) (foldl (\<lambda>d e. apply_diff (undo_imgid e) (X e) (Y e) d) db es) =
         filter (\<lambda>r. fst (snd r) \<notin> set (removals (X e) (Y e))) (rows_of (undo_imgid e) db) @
           insertions (undo_imgid e) (X e) (Y e)"
  using assms
proof (induction es arbitrary: db)
  case Nil
  then show ?case by simp
next
  case (Cons f es)
  show ?case
  proof (cases "e = f")
    case True
    then have "undo_imgid e \<notin> set (map undo_imgid es)" using Cons.prems(1) by simp
    then show ?thesis using True
      by (simp add: fold_rows_other rows_of_step)
  next
    case False
    then have e: "e \<in> set es" using Cons.prems(2) by simp
    have "undo_imgid f \<notin> undo_imgid ` set es" using Cons.prems(1) by simp
    then have ne: "undo_imgid e \<noteq> undo_imgid f" using e by (metis imageI)
    have "rows_of (undo_imgid e) (apply_diff (undo_imgid f) (X f) (Y f) db) =
          rows_of (undo_imgid e) db"
      using ne by (simp add: rows_of_step)
    then show ?thesis using Cons.IH [OF _ e, of "apply_diff (undo_imgid f) (X f) (Y f) db"]
        Cons.prems(1) by simp
  qed
qed


text \<open>what a mutation of distinct valid entities records and persists\<close>

lemma execute_entries:
  assumes "list_all valid imgs" and "distinct imgs"
    and "metadata_execute valid imgs m True action (db, undo) = Some (db1, es)"
  shows "\<exists>new. es = undo @ new \<and> map undo_imgid new = imgs \<and>
           (\<forall>e \<in> set new. undo_before e = dt_metadata_get_list_id valid db (undo_imgid e) \<and>
                            even (length (undo_after e))) \<and>
           db1 = foldl (\<lambda>d e. apply_diff (undo_imgid e) (undo_before e) (undo_after e) d) db new"
  using assms
proof (induction imgs arbitrary: db undo)
  case Nil
  then show ?case by simp
next
  case (Cons img images)
  let ?b = "dt_metadata_get_list_id valid db img"
  have v: "valid img" using Cons.prems(1) by simp
  obtain a where a: "metadata_after action ?b m = Some a"
    using Cons.prems(3) by (auto simp: Let_def split: option.splits)
  obtain d where d: "pop_undo_execute valid img ?b a db = Some d"
    using Cons.prems(3) a by (auto simp: Let_def split: option.splits)
  let ?e = "\<lparr>undo_imgid = img, undo_before = ?b, undo_after = a\<rparr>"
  have rest: "metadata_execute valid images m True action (d, undo @ [?e]) = Some (db1, es)"
    using Cons.prems(3) a d by (simp add: Let_def)
  have ea: "even (length a)"
    using d tb_added_Some_even [of img ?b a]
    by (auto simp: pop_undo_execute_def split: option.splits)
  have eb: "even (length ?b)" by (rule get_list_id_even)
  have dd: "d = apply_diff img ?b a db"
    using d pop_undo_execute_apply [of valid img ?b a db] v eb ea by simp
  obtain new where n: "es = (undo @ [?e]) @ new" "map undo_imgid new = images"
      "\<forall>e \<in> set new. undo_before e = dt_metadata_get_list_id valid d (undo_imgid e) \<and>
                            even (length (undo_after e))"
      "db1 = foldl (\<lambda>d e. apply_diff (undo_imgid e) (undo_before e) (undo_after e) d) d new"
    using Cons.IH [OF _ _ rest] Cons.prems(1,2) by auto
  have same: "dt_metadata_get_list_id valid d (undo_imgid e) =
              dt_metadata_get_list_id valid db (undo_imgid e)" if "e \<in> set new" for e
  proof -
    have "undo_imgid e \<in> set images" using that n(2) by (metis imageI set_map)
    then have "undo_imgid e \<noteq> img" using Cons.prems(2) by auto
    then show ?thesis unfolding dd by (intro read_rows_cong) (simp add: rows_of_step)
  qed
  show ?case
    using n same dd ea by (intro exI [of _ "?e # new"]) simp
qed

lemma undo_redo_group:
  assumes v: "list_all valid imgs" and di: "distinct imgs"
    and x: "metadata_execute valid imgs m True action (db0, []) = Some (db1, es)"
    and d: "\<forall>e \<in> set es. distinct (key_ids (undo_after e))"
  shows "\<exists>db2 i2 db3 i3.
           pop_undo valid DT_UNDO_METADATA es DT_ACTION_UNDO (db1, is) = Some (db2, i2) \<and>
           pop_undo valid DT_UNDO_METADATA es DT_ACTION_REDO (db2, i2) = Some (db3, i3) \<and>
           (\<forall>j. rows_of j db3 = rows_of j db1)"
proof -
  have es: "map undo_imgid es = imgs"
      "\<And>e. e \<in> set es \<Longrightarrow> undo_before e = dt_metadata_get_list_id valid db0 (undo_imgid e)"
      "\<And>e. e \<in> set es \<Longrightarrow> even (length (undo_after e))"
      "db1 = foldl (\<lambda>d e. apply_diff (undo_imgid e) (undo_before e) (undo_after e) d) db0 es"
    using execute_entries [OF v di x] by auto
  have ok: "\<forall>e \<in> set es. valid (undo_imgid e) \<and> even (length (undo_before e)) \<and>
             even (length (undo_after e))"
  proof
    fix e assume e: "e \<in> set es"
    have "undo_imgid e \<in> set imgs" using e es(1) by (metis imageI set_map)
    then have "valid (undo_imgid e)" using v by (simp add: list_all_iff)
    then show "valid (undo_imgid e) \<and> even (length (undo_before e)) \<and>
             even (length (undo_after e))"
      using es(2,3) [OF e] get_list_id_even by simp
  qed
  let ?U = "\<lambda>d e. apply_diff (undo_imgid e) (undo_after e) (undo_before e) d"
  let ?R = "\<lambda>d e. apply_diff (undo_imgid e) (undo_before e) (undo_after e) d"
  let ?db2 = "foldl ?U db1 es"
  let ?db3 = "foldl ?R ?db2 es"
  have u: "pop_undo valid DT_UNDO_METADATA es DT_ACTION_UNDO (db1, is) =
             Some (?db2, rev (map undo_imgid es) @ is)"
    using pop_undo_loop_fold [OF ok, of DT_ACTION_UNDO db1 "is"] by (simp add: pop_undo_def)
  have r: "pop_undo valid DT_UNDO_METADATA es DT_ACTION_REDO (?db2, rev (map undo_imgid es) @ is) =
             Some (?db3, rev (map undo_imgid es) @ rev (map undo_imgid es) @ is)"
    using pop_undo_loop_fold [OF ok, of DT_ACTION_REDO ?db2] by (simp add: pop_undo_def)
  have dm: "distinct (map undo_imgid es)" using es(1) di by simp
  have "rows_of j ?db3 = rows_of j db1" for j
  proof (cases "j \<in> set (map undo_imgid es)")
    case False
    then show ?thesis
      using fold_rows_other [of j es "\<lambda>e. undo_before e" "\<lambda>e. undo_after e"]
        fold_rows_other [of j es "\<lambda>e. undo_after e" "\<lambda>e. undo_before e"] by simp
  next
    case True
    then obtain e where e: "e \<in> set es" "j = undo_imgid e" by auto
    let ?b = "undo_before e" and ?a = "undo_after e"
    have vj: "valid j" using ok e by simp
    have b: "?b = dt_metadata_get_list_id valid db0 j" using es(2) [OF e(1)] e(2) by simp
    have da: "distinct (key_ids ?a)" using d e(1) by simp
    have 1: "rows_of j db1 = rows_of j (apply_diff j ?b ?a db0)"
      unfolding es(4) using fold_rows_one [OF dm e(1), of "\<lambda>e. undo_before e" "\<lambda>e. undo_after e" db0] e(2)
      by (simp add: rows_of_step)
    have 2: "rows_of j ?db2 = rows_of j (apply_diff j ?a ?b (apply_diff j ?b ?a db0))"
      using fold_rows_one [OF dm e(1), of "\<lambda>e. undo_after e" "\<lambda>e. undo_before e" db1] e(2) 1
      by (simp add: rows_of_step)
    have 3: "rows_of j ?db3 =
        rows_of j (apply_diff j ?b ?a (apply_diff j ?a ?b (apply_diff j ?b ?a db0)))"
      using fold_rows_one [OF dm e(1), of "\<lambda>e. undo_before e" "\<lambda>e. undo_after e" ?db2] e(2) 2
      by (simp add: rows_of_step)
    show ?thesis
      unfolding 3 1 using undo_redo_restores [OF vj b da] by simp
  qed
  then show ?thesis using u r by blast
qed

subsection \<open>A mutation as a fold over the entities\<close>

lemma pop_undo_execute_read:
  assumes "b = dt_metadata_get_list_id valid db' img" and "even (length a)"
  shows "pop_undo_execute valid img b a db = Some (apply_diff img b a db)"
proof (cases "valid img")
  case True
  then show ?thesis using pop_undo_execute_apply [of valid img b a db] assms get_list_id_even by simp
next
  case False
  then have b: "b = []" using assms(1) by (simp add: dt_metadata_get_list_id_def)
  have i: "bulk_add_metadata
             (map (\<lambda>p. (img, atoi (fst p), snd p)) (filter (insertion_rule (pairs [])) (pairs a)))
             db = db @ insertions img [] a"
    by (simp add: bulk_add_metadata_def insertions_def)
  show ?thesis
    using i pop_undo_execute_even [of "[]" a valid img db] assms(2) b
    by (simp add: apply_diff_def removals_def bulk_remove_metadata_def)
qed

lemma execute_fold:
  assumes "\<And>b. even (length b) \<Longrightarrow> metadata_after action b m = Some (f b) \<and> even (length (f b))"
  shows "map_option fst (metadata_execute valid imgs m undo_on action (db, undo)) =
     Some (foldl (\<lambda>d i. apply_diff i (dt_metadata_get_list_id valid d i)
                           (f (dt_metadata_get_list_id valid d i)) d) db imgs)"
proof (induction imgs arbitrary: db undo)
  case Nil
  show ?case by simp
next
  case (Cons img imgs)
  let ?b = "dt_metadata_get_list_id valid db img"
  have a: "metadata_after action ?b m = Some (f ?b)" "even (length (f ?b))"
    using assms [of ?b] get_list_id_even by auto
  have pe: "pop_undo_execute valid img ?b (f ?b) db = Some (apply_diff img ?b (f ?b) db)"
    using pop_undo_execute_read [of ?b valid db img "f ?b" db] a(2) by simp
  show ?case
    using a(1) pe Cons.IH by (simp add: Let_def)
qed

lemma merge_add_after:
  assumes "even (length m)" and "even (length b)"
  shows "metadata_after DT_MA_ADD b m = Some (unpairs (merge_add (pairs b) (pairs m))) \<and>
         even (length (unpairs (merge_add (pairs b) (pairs m))))"
proof -
  obtain l' where l: "metadata_add_metadata_to_list b m = Some l'" "even (length l')"
      "pairs l' = merge_add (pairs b) (pairs m)"
    using add_even [OF assms(2,1)] by blast
  have "unpairs (merge_add (pairs b) (pairs m)) = l'"
    using l(2,3) unpairs_pairs [of l'] by simp
  then show ?thesis using l by (simp add: metadata_after_def DT_MA_ADD_def DT_MA_SET_def)
qed

lemma execute_merge_add:
  assumes "even (length m)"
  shows "map_option fst (metadata_execute valid imgs m undo_on DT_MA_ADD (db, undo)) =
     Some (foldl (\<lambda>d i. merge_add_rows valid m i d) db imgs)"
  using execute_fold [of DT_MA_ADD m "\<lambda>b. unpairs (merge_add (pairs b) (pairs m))"
      valid imgs undo_on db undo] merge_add_after [OF assms]
  by (simp add: merge_add_rows_def Let_def)

lemma remove_first_pairs:
  "even (length l) \<Longrightarrow> list_find_custom l k = Some i \<Longrightarrow>
   Suc i < length l \<and> even (length (take i l @ drop (i + 2) l)) \<and>
   pairs (take i l @ drop (i + 2) l) = remove_first k (pairs l)"
  by (induction l k arbitrary: i rule: list_find_custom.induct) (auto split: if_splits)

lemma remove_first_absent: "k \<notin> set (map fst ps) \<Longrightarrow> remove_first k ps = ps"
  by (induction ps) auto

lemma remove_spec:
  "even (length l) \<Longrightarrow>
   \<exists>l'. metadata_remove_metadata_from_list l ks = Some l' \<and> even (length l') \<and>
         pairs l' = remove_matching (pairs l) ks"
proof (induction l ks rule: metadata_remove_metadata_from_list.induct)
  case (1 list)
  then show ?case by (simp add: remove_matching_def)
next
  case (2 list k m)
  show ?case
  proof (cases "list_find_custom list k")
    case None
    then have "k \<notin> set (map fst (pairs list))"
      using lfc_None_even [of list k] "2.prems" by (simp add: map_of_eq_None_iff)
    then have "remove_first k (pairs list) = pairs list" by (rule remove_first_absent)
    then show ?thesis using None 2 by (simp add: remove_matching_def)
  next
    case (Some i)
    have r: "Suc i < length list" "even (length (take i list @ drop (i + 2) list))"
      "pairs (take i list @ drop (i + 2) list) = remove_first k (pairs list)"
      using remove_first_pairs [OF "2.prems"(1) Some] by auto
    have "\<exists>l'. metadata_remove_metadata_from_list (take i list @ drop (i + 2) list) m = Some l' \<and>
         even (length l') \<and>
         pairs l' = remove_matching (pairs (take i list @ drop (i + 2) list)) m"
      using "2.IH"(2) [OF Some r(1)] r(2) by simp
    then show ?thesis using Some r by (simp add: remove_matching_def)
  qed
qed

lemma remove_matching_after:
  assumes "even (length b)"
  shows "metadata_after DT_MA_REMOVE b ks = Some (unpairs (remove_matching (pairs b) ks)) \<and>
         even (length (unpairs (remove_matching (pairs b) ks)))"
proof -
  obtain l' where l: "metadata_remove_metadata_from_list b ks = Some l'" "even (length l')"
      "pairs l' = remove_matching (pairs b) ks"
    using remove_spec [OF assms] by blast
  have "unpairs (remove_matching (pairs b) ks) = l'"
    using l(2,3) unpairs_pairs [of l'] by simp
  then show ?thesis
    using l by (simp add: metadata_after_def DT_MA_REMOVE_def DT_MA_ADD_def DT_MA_SET_def)
qed

lemma execute_remove_matching:
  "map_option fst (metadata_execute valid imgs ks undo_on DT_MA_REMOVE (db, undo)) =
     Some (foldl (\<lambda>d i. remove_matching_rows valid ks i d) db imgs)"
  using execute_fold [of DT_MA_REMOVE ks "\<lambda>b. unpairs (remove_matching (pairs b) ks)"
      valid imgs undo_on db undo] remove_matching_after
  by (simp add: remove_matching_rows_def Let_def)


subsection \<open>The entry points as mutations of the table\<close>

lemma map_option_fst_Some:
  "map_option fst r = Some x \<Longrightarrow> \<exists>y. r = Some (x, y)"
  by (cases r) auto

lemma set_effect:
  "map_option main_meta_data (dt_metadata_set valid st img k val undo_on) =
     Some (if sint (dt_metadata_get_keyid (metadata_list st) k) = - 1 then main_meta_data st
           else foldl (\<lambda>d i. merge_add_rows valid
                          [printf_d (sint (dt_metadata_get_keyid (metadata_list st) k)),
                           cleanup_metadata_value val] i d)
                  (main_meta_data st) (if valid img then [img] else act_on_images st))"
proof -
  let ?kid = "sint (dt_metadata_get_keyid (metadata_list st) k)"
  let ?m = "[printf_d ?kid, cleanup_metadata_value val]"
  let ?imgs = "if \<not> valid img then act_on_images st else [img]"
  have n: "?kid = - 1" if "k = None" using that by (simp add: dt_metadata_get_keyid_def)
  obtain undo where x: "metadata_execute valid ?imgs ?m undo_on DT_MA_ADD (main_meta_data st, []) =
      Some (foldl (\<lambda>d i. merge_add_rows valid ?m i d) (main_meta_data st) ?imgs, undo)"
    using map_option_fst_Some [OF execute_merge_add [of ?m valid ?imgs undo_on "main_meta_data st" "[]"]]
    by auto
  show ?thesis
  proof (cases "?kid = - 1")
    case True
    then show ?thesis by (simp add: dt_metadata_set_def Let_def)
  next
    case False
    then have k: "k \<noteq> None" using n by blast
    show ?thesis
    proof (cases "?imgs = []")
      case True
      then show ?thesis using False k by (simp add: dt_metadata_set_def Let_def split: if_splits)
    next
      case ne: False
      show ?thesis
        unfolding dt_metadata_set_def Let_def using False k ne x
        by (simp del: metadata_execute.simps split: if_splits)
    qed
  qed
qed

lemma set_import_effect:
  "dt_metadata_set_import valid flag_imported st img k val =
     Some (if valid img
           then (case dt_metadata_get_metadata_by_tagname (metadata_list st) k of
                   None \<Rightarrow> st
                 | Some md \<Rightarrow>
                     if imported flag_imported st md
                     then st\<lparr>main_meta_data :=
                            merge_add_rows valid
                              [printf_d (sint (key md)), cleanup_metadata_value val] img
                              (main_meta_data st)\<rparr>
                     else st)
           else st)"
proof -
  have n: "dt_metadata_get_metadata_by_tagname ml None = None" for ml
    by (induction ml) simp_all
  have x: "\<exists>undo. metadata_execute valid [img] [printf_d (sint (key md)), cleanup_metadata_value val]
         False DT_MA_ADD (main_meta_data st, []) =
      Some (merge_add_rows valid [printf_d (sint (key md)), cleanup_metadata_value val] img
              (main_meta_data st), undo)" for md :: dt_metadata_t
    using map_option_fst_Some [OF execute_merge_add
        [of "[printf_d (sint (key md)), cleanup_metadata_value val]" valid "[img]" False
           "main_meta_data st" "[]"]]
    by auto
  show ?thesis
  proof (cases "dt_metadata_get_metadata_by_tagname (metadata_list st) k")
    case None
    then show ?thesis by (simp add: dt_metadata_set_import_def)
  next
    case (Some md)
    then have k: "k \<noteq> None" using n [of "metadata_list st"] by (cases k) simp_all
    obtain undo where "metadata_execute valid [img]
         [printf_d (sint (key md)), cleanup_metadata_value val]
         False DT_MA_ADD (main_meta_data st, []) =
      Some (merge_add_rows valid [printf_d (sint (key md)), cleanup_metadata_value val] img
              (main_meta_data st), undo)"
      using x [of md] by blast
    then show ?thesis
      unfolding dt_metadata_set_import_def Let_def using Some k
      by (auto simp del: metadata_execute.simps)
  qed
qed

lemma set_list_effect:
  assumes "even (length kv)"
  shows "map_option main_meta_data (dt_metadata_set_list valid st imgs kv undo_on) =
     Some (if set_list_payload (metadata_list st) kv = [] then main_meta_data st
           else foldl (\<lambda>d i. merge_add_rows valid (set_list_payload (metadata_list st) kv) i d)
                  (main_meta_data st) imgs)"
proof -
  let ?m = "set_list_payload (metadata_list st) kv"
  have l: "set_list_loop (metadata_list st) kv [] = Some ?m"
    using assms by (simp add: set_list_loop_even set_list_payload_def)
  have em: "even (length ?m)" by (simp add: set_list_payload_def length_unpairs)
  obtain undo where x: "metadata_execute valid imgs ?m undo_on DT_MA_ADD (main_meta_data st, []) =
      Some (foldl (\<lambda>d i. merge_add_rows valid ?m i d) (main_meta_data st) imgs, undo)"
    using map_option_fst_Some [OF execute_merge_add [OF em, of valid imgs undo_on "main_meta_data st" "[]"]]
    by auto
  show ?thesis
  proof (cases "?m \<noteq> [] \<and> imgs \<noteq> []")
    case True
    then show ?thesis
      unfolding dt_metadata_set_list_def using l x by (simp del: metadata_execute.simps)
  next
    case False
    then show ?thesis
      unfolding dt_metadata_set_list_def using l by auto
  qed
qed

lemma clear_effect:
  "map_option main_meta_data (dt_metadata_clear valid st imgs undo_on) =
     Some (if clear_keys (metadata_list st) = [] then main_meta_data st
           else foldl (\<lambda>d i. remove_matching_rows valid (clear_keys (metadata_list st)) i d)
                  (main_meta_data st) imgs)"
proof -
  let ?ks = "clear_keys (metadata_list st)"
  have ks: "rev (clear_loop (metadata_list st) []) = ?ks"
    by (simp add: clear_loop_acc clear_keys_def)
  obtain undo where x: "metadata_execute valid imgs ?ks undo_on DT_MA_REMOVE (main_meta_data st, []) =
      Some (foldl (\<lambda>d i. remove_matching_rows valid ?ks i d) (main_meta_data st) imgs, undo)"
    using map_option_fst_Some [OF execute_remove_matching [of valid imgs ?ks undo_on "main_meta_data st" "[]"]]
    by auto
  show ?thesis
  proof (cases "?ks = []")
    case True
    then have "clear_loop (metadata_list st) [] = []" using ks by (metis rev_is_Nil_conv)
    then show ?thesis using True by (simp add: dt_metadata_clear_def)
  next
    case False
    then have ne: "clear_loop (metadata_list st) [] \<noteq> []" using ks by (metis rev.simps(1))
    show ?thesis
      unfolding dt_metadata_clear_def Let_def using ne ks x False
      by (simp del: metadata_execute.simps)
  qed
qed


subsection \<open>The rows a MergeAdd leaves\<close>

lemma map_of_overwrite_first:
  "k \<in> set (map fst ps) \<Longrightarrow> map_of (overwrite_first k v ps) = (map_of ps)(k \<mapsto> v)"
proof (induction ps)
  case Nil
  then show ?case by simp
next
  case (Cons q ps)
  obtain k' v' where q: "q = (k', v')" by (cases q)
  show ?case
  proof (cases "k' = k")
    case True
    then show ?thesis using q by (auto simp: fun_eq_iff)
  next
    case False
    then have "k \<in> set (map fst ps)" using Cons.prems q by auto
    then have "map_of (overwrite_first k v ps) = (map_of ps)(k \<mapsto> v)" by (rule Cons.IH)
    then show ?thesis using q False by (auto simp: fun_eq_iff)
  qed
qed

lemma map_of_merge_pair: "map_of (merge_pair ps p) = (map_of ps)(fst p \<mapsto> snd p)"
proof (cases "fst p \<in> set (map fst ps)")
  case True
  then show ?thesis by (simp add: merge_pair_def map_of_overwrite_first)
next
  case False
  then have "map_of ps (fst p) = None" by (simp add: map_of_eq_None_iff)
  then have "map_of (ps @ [p]) = (map_of ps)(fst p \<mapsto> snd p)"
    by (cases p) (auto simp: fun_eq_iff map_add_def split: option.splits)
  then show ?thesis using False by (simp add: merge_pair_def)
qed

lemma map_of_merge_add: "map_of (merge_add ps qs) = map_of ps ++ map_of (rev qs)"
proof (induction qs arbitrary: ps)
  case Nil
  show ?case by (simp add: merge_add_def)
next
  case (Cons q qs)
  have "map_of (merge_add ps (q # qs)) = map_of (merge_pair ps q) ++ map_of (rev qs)"
    using Cons.IH [of "merge_pair ps q"] by (simp add: merge_add_def)
  also have "\<dots> = map_of ps ++ map_of (rev (q # qs))"
    by (cases q) (auto simp: map_of_merge_pair fun_eq_iff map_add_def split: option.splits)
  finally show ?case .
qed

lemma merge_pair_keys:
  "set (map fst (merge_pair ps p)) = insert (fst p) (set (map fst ps)) \<and>
   (distinct (map fst ps) \<longrightarrow> distinct (map fst (merge_pair ps p)))"
proof (cases "fst p \<in> set (map fst ps)")
  case True
  then have "map fst (merge_pair ps p) = map fst ps"
    by (simp add: merge_pair_def overwrite_first_fst)
  then show ?thesis using True by auto
next
  case False
  then show ?thesis by (simp add: merge_pair_def)
qed

lemma merge_add_keys:
  "set (map fst (merge_add ps qs)) = set (map fst ps) \<union> set (map fst qs) \<and>
   (distinct (map fst ps) \<longrightarrow> distinct (map fst (merge_add ps qs)))"
proof (induction qs arbitrary: ps)
  case Nil
  show ?case by (simp add: merge_add_def)
next
  case (Cons q qs)
  have "merge_add ps (q # qs) = merge_add (merge_pair ps q) qs" by (simp add: merge_add_def)
  then show ?case using Cons.IH [of "merge_pair ps q"] merge_pair_keys [of ps q] by auto
qed

lemma numeric_distinct:
  assumes "distinct (map fst ps)" and "set (map fst ps) \<subseteq> range printf_d"
  shows "distinct (map (atoi \<circ> fst) ps)"
proof -
  have "inj_on atoi (range printf_d)"
    by (rule inj_on_inverseI [of _ printf_d]) (auto simp: atoi_printf_d)
  then have "inj_on atoi (set (map fst ps))" using assms(2) by (rule inj_on_subset)
  then have "distinct (map atoi (map fst ps))"
    using assms(1) distinct_map [of atoi "map fst ps"] by blast
  then show ?thesis by (simp only: map_map)
qed

lemma printf_d_inj: "printf_d i = printf_d j \<Longrightarrow> i = j"
  by (metis atoi_printf_d)

lemma merge_rows_key:
  assumes v: "valid img" and d: "distinct (map (fst \<circ> snd) (rows_of img db))"
    and em: "even (length m)" and nm: "set (map fst (pairs m)) \<subseteq> range printf_d"
    and c: "map_of (rev (pairs m)) (printf_d j) = Some c"
  shows "(\<forall>r \<in> set (rows_of img (merge_add_rows valid m img db)).
            fst (snd r) = j \<longrightarrow> c \<noteq> [] \<and> r = (img, j, Some c)) \<and>
         (c \<noteq> [] \<longrightarrow> (img, j, Some c) \<in> set (rows_of img (merge_add_rows valid m img db)))"
proof -
  let ?b = "dt_metadata_get_list_id valid db img"
  let ?mg = "merge_add (pairs ?b) (pairs m)"
  let ?a = "unpairs ?mg"
  have pa: "pairs ?a = ?mg" by (rule pairs_unpairs)
  have pb: "pairs ?b = map row_pair (rows_of img db)" using v by (simp add: read_pairs)
  have kb: "map fst (pairs ?b) = map (printf_d \<circ> (fst \<circ> snd)) (rows_of img db)"
    using pb by (simp add: row_pair_def comp_def)
  have nb: "set (map fst (pairs ?b)) \<subseteq> range printf_d" using kb by auto
  have db: "distinct (map fst (pairs ?b))"
  proof -
    have "inj printf_d" by (rule injI) (rule printf_d_inj)
    then have "distinct (map printf_d (map (fst \<circ> snd) (rows_of img db)))"
      using d by (simp add: distinct_map inj_on_def)
    then show ?thesis using kb by simp
  qed
  have dmg: "distinct (map fst ?mg)" and nmg: "set (map fst ?mg) \<subseteq> range printf_d"
    using merge_add_keys [of "pairs ?b" "pairs m"] db nb nm by auto
  have da: "distinct (key_ids ?a)"
    using numeric_distinct [OF dmg nmg] by (simp add: key_ids_def pa)
  have dkb: "distinct (key_ids ?b)" using d v by (simp add: key_ids_read)
  have rows: "set (rows_of img (merge_add_rows valid m img db)) =
           set (map (\<lambda>p. (img, atoi (fst p), Some (snd p))) (filter (\<lambda>p. snd p \<noteq> []) ?mg))"
    using persisted_rows [of valid img ?b db ?a] v da dkb
    by (simp add: merge_add_rows_def Let_def pa)
  have mj: "map_of ?mg (printf_d j) = Some c"
    using c by (simp add: map_of_merge_add map_add_def)
  have 1: "c \<noteq> [] \<and> r = (img, j, Some c)"
    if r: "r \<in> set (rows_of img (merge_add_rows valid m img db))" "fst (snd r) = j" for r
  proof -
    obtain p where p: "p \<in> set ?mg" "snd p \<noteq> []" "r = (img, atoi (fst p), Some (snd p))"
      using rows r(1) by auto
    obtain j' where j': "fst p = printf_d j'" using nmg p(1) by (metis image_iff list.set_map subsetD)
    have "j' = j" using r(2) p(3) j' by (simp add: atoi_printf_d)
    then have "map_of ?mg (fst p) = Some c" using mj j' by simp
    moreover have "map_of ?mg (fst p) = Some (snd p)"
      using dmg p(1) by (metis map_of_is_SomeI prod.collapse)
    ultimately have "snd p = c" by simp
    then show ?thesis using p(2,3) r(2) by simp
  qed
  have 2: "(img, j, Some c) \<in> set (rows_of img (merge_add_rows valid m img db))" if "c \<noteq> []"
  proof -
    have "(printf_d j, c) \<in> set ?mg" using mj by (rule map_of_SomeD)
    then have "(img, atoi (printf_d j), Some c) \<in>
        set (map (\<lambda>p. (img, atoi (fst p), Some (snd p))) (filter (\<lambda>p. snd p \<noteq> []) ?mg))"
      using that by force
    then show ?thesis using rows by (simp add: atoi_printf_d)
  qed
  show ?thesis using 1 2 by blast
qed


lemma Some_main_meta_data:
  "map_option main_meta_data r = Some x \<Longrightarrow> \<exists>st'. r = Some st' \<and> main_meta_data st' = x"
  by (cases r) auto

lemma set_key_rows:
  assumes "valid img" and "sint (dt_metadata_get_keyid (metadata_list st) k) \<noteq> - 1"
    and "distinct (map (fst \<circ> snd) (rows_of img (main_meta_data st)))"
  shows "\<exists>st'. dt_metadata_set valid st img k val undo_on = Some st' \<and>
           (\<forall>r \<in> set (rows_of img (main_meta_data st')).
              fst (snd r) = sint (dt_metadata_get_keyid (metadata_list st) k) \<longrightarrow>
              cleanup_metadata_value val \<noteq> [] \<and>
              r = (img, sint (dt_metadata_get_keyid (metadata_list st) k),
                   Some (cleanup_metadata_value val))) \<and>
           (cleanup_metadata_value val \<noteq> [] \<longrightarrow>
              (img, sint (dt_metadata_get_keyid (metadata_list st) k),
               Some (cleanup_metadata_value val)) \<in> set (rows_of img (main_meta_data st')))"
proof -
  let ?kid = "sint (dt_metadata_get_keyid (metadata_list st) k)"
  let ?m = "[printf_d ?kid, cleanup_metadata_value val]"
  obtain st' where st': "dt_metadata_set valid st img k val undo_on = Some st'"
      "main_meta_data st' = merge_add_rows valid ?m img (main_meta_data st)"
    using Some_main_meta_data [OF set_effect [of valid st img k val undo_on]] assms(1,2) by auto
  have c: "map_of (rev (pairs ?m)) (printf_d ?kid) = Some (cleanup_metadata_value val)" by simp
  have em: "even (length ?m)" and nm: "set (map fst (pairs ?m)) \<subseteq> range printf_d"
    by simp_all
  show ?thesis
    using merge_rows_key [of valid img "main_meta_data st" ?m ?kid "cleanup_metadata_value val"]
      assms(1,3) em nm c st'
    by auto
qed

lemma set_import_key_rows:
  assumes "valid img"
    and "dt_metadata_get_metadata_by_tagname (metadata_list st) k = Some md"
    and "imported flag_imported st md"
    and "distinct (map (fst \<circ> snd) (rows_of img (main_meta_data st)))"
  shows "\<exists>st'. dt_metadata_set_import valid flag_imported st img k val = Some st' \<and>
           (\<forall>r \<in> set (rows_of img (main_meta_data st')).
              fst (snd r) = sint (key md) \<longrightarrow>
              cleanup_metadata_value val \<noteq> [] \<and>
              r = (img, sint (key md), Some (cleanup_metadata_value val))) \<and>
           (cleanup_metadata_value val \<noteq> [] \<longrightarrow>
              (img, sint (key md), Some (cleanup_metadata_value val))
                \<in> set (rows_of img (main_meta_data st')))"
proof -
  let ?m = "[printf_d (sint (key md)), cleanup_metadata_value val]"
  have st': "dt_metadata_set_import valid flag_imported st img k val =
      Some (st\<lparr>main_meta_data := merge_add_rows valid ?m img (main_meta_data st)\<rparr>)"
    using set_import_effect [of valid flag_imported st img k val] assms(1,2,3) by simp
  have c: "map_of (rev (pairs ?m)) (printf_d (sint (key md))) = Some (cleanup_metadata_value val)"
    by simp
  have em: "even (length ?m)" and nm: "set (map fst (pairs ?m)) \<subseteq> range printf_d"
    by simp_all
  show ?thesis
    using merge_rows_key [of valid img "main_meta_data st" ?m "sint (key md)"
        "cleanup_metadata_value val"] assms(1,4) em nm c st'
    by auto
qed

lemma set_list_key_rows:
  assumes "valid img" and "even (length kv)"
    and "distinct (map (fst \<circ> snd) (rows_of img (main_meta_data st)))"
    and "map_of (rev (pairs (set_list_payload (metadata_list st) kv))) (printf_d j) = Some c"
  shows "\<exists>st'. dt_metadata_set_list valid st [img] kv undo_on = Some st' \<and>
           (\<forall>r \<in> set (rows_of img (main_meta_data st')).
              fst (snd r) = j \<longrightarrow> c \<noteq> [] \<and> r = (img, j, Some c)) \<and>
           (c \<noteq> [] \<longrightarrow> (img, j, Some c) \<in> set (rows_of img (main_meta_data st')))"
proof -
  let ?m = "set_list_payload (metadata_list st) kv"
  have ne: "?m \<noteq> []" using assms(4) by auto
  have em: "even (length ?m)" by (simp add: set_list_payload_def length_unpairs)
  have nm: "set (map fst (pairs ?m)) \<subseteq> range printf_d"
    by (auto simp: set_list_payload_def pairs_unpairs)
  obtain st' where st': "dt_metadata_set_list valid st [img] kv undo_on = Some st'"
      "main_meta_data st' = merge_add_rows valid ?m img (main_meta_data st)"
    using Some_main_meta_data [OF set_list_effect [OF assms(2), of valid st "[img]" undo_on]] ne
    by auto
  show ?thesis
    using merge_rows_key [of valid img "main_meta_data st" ?m j c] assms(1,3,4) em nm st'
    by auto
qed

subsection \<open>What a clear deletes\<close>

lemma remove_first_keys:
  "set (remove_first k ps) \<subseteq> set ps \<and>
   (distinct (map fst ps) \<longrightarrow> distinct (map fst (remove_first k ps)) \<and>
      k \<notin> set (map fst (remove_first k ps)))"
proof (induction ps)
  case Nil
  show ?case by simp
next
  case (Cons q ps)
  obtain k' v' where q: "q = (k', v')" by (cases q)
  show ?case
  proof (cases "k' = k")
    case True
    then show ?thesis using q by auto
  next
    case False
    have "k' \<notin> fst ` set (remove_first k ps)" if "k' \<notin> fst ` set ps"
      using that Cons.IH by blast
    then show ?thesis using q False Cons.IH by auto
  qed
qed

lemma remove_matching_keys:
  "set (remove_matching ps ks) \<subseteq> set ps \<and>
   (distinct (map fst ps) \<longrightarrow> (\<forall>k \<in> set ks. k \<notin> set (map fst (remove_matching ps ks))))"
proof (induction ks arbitrary: ps)
  case Nil
  show ?case by (simp add: remove_matching_def)
next
  case (Cons k ks)
  have eq: "remove_matching ps (k # ks) = remove_matching (remove_first k ps) ks"
    by (simp add: remove_matching_def)
  have ih: "set (remove_matching (remove_first k ps) ks) \<subseteq> set (remove_first k ps)"
    "distinct (map fst (remove_first k ps)) \<longrightarrow>
       (\<forall>k' \<in> set ks. k' \<notin> set (map fst (remove_matching (remove_first k ps) ks)))"
    using Cons.IH [of "remove_first k ps"] by auto
  have rf: "set (remove_first k ps) \<subseteq> set ps"
    "distinct (map fst ps) \<longrightarrow> distinct (map fst (remove_first k ps)) \<and>
      k \<notin> set (map fst (remove_first k ps))"
    using remove_first_keys [of k ps] by auto
  have "k \<notin> set (map fst (remove_matching (remove_first k ps) ks))" if "distinct (map fst ps)"
  proof -
    have "k \<notin> fst ` set (remove_first k ps)" using rf(2) that by simp
    then show ?thesis using ih(1) by auto
  qed
  then show ?case unfolding eq using ih rf by auto
qed

lemma clear_listed_rows:
  assumes v: "valid img"
    and d: "distinct (map (fst \<circ> snd) (rows_of img (main_meta_data st)))"
  shows "\<exists>st'. dt_metadata_clear valid st [img] undo_on = Some st' \<and>
           (\<forall>r \<in> set (rows_of img (main_meta_data st')).
              printf_d (fst (snd r)) \<notin> set (clear_keys (metadata_list st)))"
proof -
  let ?ks = "clear_keys (metadata_list st)"
  let ?db = "main_meta_data st"
  let ?b = "dt_metadata_get_list_id valid ?db img"
  let ?a = "unpairs (remove_matching (pairs ?b) ?ks)"
  show ?thesis
  proof (cases "?ks = []")
    case True
    then show ?thesis
      using Some_main_meta_data [OF clear_effect [of valid st "[img]" undo_on]] by auto
  next
    case False
    obtain st' where st': "dt_metadata_clear valid st [img] undo_on = Some st'"
        "main_meta_data st' = apply_diff img ?b ?a ?db"
      using Some_main_meta_data [OF clear_effect [of valid st "[img]" undo_on]] False
      by (auto simp: remove_matching_rows_def Let_def)
    have a: "metadata_after DT_MA_REMOVE ?b ?ks = Some ?a"
      using remove_matching_after [OF get_list_id_even] by blast
    have rows: "rows_of img (apply_diff img ?b ?a ?db) =
           filter (\<lambda>r. fst (snd r) \<notin> set (removals ?b ?a)) (rows_of img ?db)"
      using removal_only_rows(1) [of valid img ?b ?db ?ks ?a] v a d by simp
    have dfb: "distinct (map fst (pairs ?b))"
      using d v by (intro distinct_key_ids_fst) (simp add: key_ids_read)
    have gone: "printf_d (fst (snd r)) \<notin> set ?ks"
      if r: "r \<in> set (rows_of img ?db)" "fst (snd r) \<notin> set (removals ?b ?a)" for r
    proof
      assume l: "printf_d (fst (snd r)) \<in> set ?ks"
      have rb: "row_pair r \<in> set (pairs ?b)" using v r(1) by (simp add: read_pairs)
      have "fst (row_pair r) \<notin> set (map fst (remove_matching (pairs ?b) ?ks))"
        using remove_matching_keys [of "pairs ?b" ?ks] dfb l by (simp add: row_pair_def)
      then have "map_of (pairs ?a) (fst (row_pair r)) = None"
        by (simp add: pairs_unpairs map_of_eq_None_iff)
      then have "removal_rule (pairs ?a) (row_pair r)" by (simp add: removal_rule_def)
      then have "atoi (fst (row_pair r)) \<in> set (removals ?b ?a)"
        using rb by (auto simp: removals_def)
      then show False using r(2) by (simp add: atoi_row_pair)
    qed
    show ?thesis using st' rows gone by auto
  qed
qed

subsection \<open>Replay of any group\<close>

lemma pop_undo_replay:
  "pop_undo valid DT_UNDO_METADATA es action (db, sel) =
     map_option (\<lambda>d. (d, rev (map undo_imgid es) @ sel))
       (replay valid
          (map (\<lambda>e. if action = DT_ACTION_UNDO
                     then (undo_imgid e, undo_after e, undo_before e)
                     else (undo_imgid e, undo_before e, undo_after e)) es) db)"
proof (induction es arbitrary: db sel)
  case Nil
  show ?case by (simp add: pop_undo_def)
next
  case (Cons e es)
  show ?case
    using Cons.IH by (auto simp: pop_undo_def Let_def split: option.splits)
qed

lemma execute_entries_even:
  assumes "list_all valid imgs"
    and "metadata_execute valid imgs m True action (db, undo) = Some (db1, es)"
  shows "\<exists>new. es = undo @ new \<and> map undo_imgid new = imgs \<and>
           (\<forall>e \<in> set new. valid (undo_imgid e) \<and> even (length (undo_before e)) \<and>
                            even (length (undo_after e)))"
  using assms
proof (induction imgs arbitrary: db undo)
  case Nil
  then show ?case by simp
next
  case (Cons img images)
  let ?b = "dt_metadata_get_list_id valid db img"
  have v: "valid img" using Cons.prems(1) by simp
  obtain a where a: "metadata_after action ?b m = Some a"
    using Cons.prems(2) by (auto simp: Let_def split: option.splits)
  obtain d where d: "pop_undo_execute valid img ?b a db = Some d"
    using Cons.prems(2) a by (auto simp: Let_def split: option.splits)
  let ?e = "\<lparr>undo_imgid = img, undo_before = ?b, undo_after = a\<rparr>"
  have rest: "metadata_execute valid images m True action (d, undo @ [?e]) = Some (db1, es)"
    using Cons.prems(2) a d by (simp add: Let_def)
  have ea: "even (length a)"
    using d tb_added_Some_even [of img ?b a]
    by (auto simp: pop_undo_execute_def split: option.splits)
  have eb: "even (length ?b)" by (rule get_list_id_even)
  obtain new where n: "es = (undo @ [?e]) @ new" "map undo_imgid new = images"
      "\<forall>e \<in> set new. valid (undo_imgid e) \<and> even (length (undo_before e)) \<and>
                            even (length (undo_after e))"
    using Cons.IH [OF _ rest] Cons.prems(1) by auto
  show ?case
    using n v ea eb by (intro exI [of _ "?e # new"]) simp
qed

section \<open>The claims\<close>

subsection \<open>The diff of two snapshots\<close>

text \<open>
  C1. For snapshots \<open>b\<close> (before) and \<open>a\<close> (after), lists of alternating keys and
  values: the removal list holds, in order, the key of every pair of \<open>b\<close> for which
  the first pair of \<open>a\<close> with the same key does not exist, or has a different
  value, or has the empty value; the insertion list holds, in order, every pair of
  \<open>a\<close> whose value is not empty and for which the first pair of \<open>b\<close> with the
  same key does not exist or has a different value. Keys are written as the numbers
  \<open>atoi\<close> reads from them.
\<close>

theorem C1_diff_rules:
  assumes "even (length b)" and "even (length a)"
  shows "get_tb_removed_metadata_string_values b a =
           Some (map (atoi \<circ> fst) (filter (removal_rule (pairs a)) (pairs b))) \<and>
         get_tb_added_metadata_string_values img b a =
           Some (map (\<lambda>p. (img, atoi (fst p), snd p))
                   (filter (insertion_rule (pairs b)) (pairs a)))"
  using assms by (simp add: tb_removed_even tb_added_even)

theorem C1_diff_rules_witness:
  "even (length [''1'', ''Ann'', ''2'', ''x'', ''3'', '''']) \<and>
   even (length [''1'', ''Bea'', ''2'', ''x'', ''4'', ''new'']) \<and>
   get_tb_removed_metadata_string_values
     [''1'', ''Ann'', ''2'', ''x'', ''3'', ''''] [''1'', ''Bea'', ''2'', ''x'', ''4'', ''new'']
     = Some [1, 3] \<and>
   get_tb_added_metadata_string_values 7
     [''1'', ''Ann'', ''2'', ''x'', ''3'', ''''] [''1'', ''Bea'', ''2'', ''x'', ''4'', ''new'']
     = Some [(7, 1, ''Bea''), (7, 4, ''new'')]"
  using C1_diff_rules [of "[''1'', ''Ann'', ''2'', ''x'', ''3'', '''']"
      "[''1'', ''Bea'', ''2'', ''x'', ''4'', ''new'']" 7]
  by (simp add: removal_rule_def insertion_rule_def atoi_def isspace_def isdigit_def)

subsection \<open>Undo and redo\<close>

text \<open>
  C2, as the code has it. Replaying a group of undo entries with action Undo is, entry
  by entry in the order of the group, Diff and Apply with before and after swapped;
  with action Redo it is the same with before and after unswapped; either way the
  entities of the entries are put on the list of changed entities. When every entry has
  a valid entity and snapshots of even length, the replay returns, and the table it
  leaves is the fold over the entries of the swapped, or unswapped, diffs; the entries
  that a mutation of valid entities records are of this kind, one for each entity. For
  a mutation of a valid entity that records the entry \<open>e\<close>: when the numeric keys of
  the after snapshot are pairwise distinct, an Undo followed by a Redo returns and
  leaves the table exactly as the mutation left it; when the keys of the before
  snapshot are pairwise distinct too, the rows the entity then has are exactly the
  pairs of the after snapshot whose value is not empty. For a mutation of several
  distinct valid entities that records the group \<open>es\<close>, with pairwise distinct keys in
  every after snapshot, the Undo of the group followed by its Redo returns and leaves
  every entity with the rows the mutation left it.
\<close>

theorem C2_undo_redo:
  "pop_undo valid DT_UNDO_METADATA es DT_ACTION_UNDO (db, imgs) =
     map_option (\<lambda>d. (d, rev (map undo_imgid es) @ imgs))
       (replay valid (map (\<lambda>e. (undo_imgid e, undo_after e, undo_before e)) es) db) \<and>
   pop_undo valid DT_UNDO_METADATA es DT_ACTION_REDO (db, imgs) =
     map_option (\<lambda>d. (d, rev (map undo_imgid es) @ imgs))
       (replay valid (map (\<lambda>e. (undo_imgid e, undo_before e, undo_after e)) es) db) \<and>
   ((\<forall>e \<in> set es. valid (undo_imgid e) \<and> even (length (undo_before e)) \<and>
                    even (length (undo_after e))) \<longrightarrow>
      pop_undo valid DT_UNDO_METADATA es DT_ACTION_UNDO (db, imgs) =
        Some (foldl (\<lambda>d e. apply_diff (undo_imgid e) (undo_after e) (undo_before e) d) db es,
              rev (map undo_imgid es) @ imgs) \<and>
      pop_undo valid DT_UNDO_METADATA es DT_ACTION_REDO (db, imgs) =
        Some (foldl (\<lambda>d e. apply_diff (undo_imgid e) (undo_before e) (undo_after e) d) db es,
              rev (map undo_imgid es) @ imgs)) \<and>
   (list_all valid images \<and>
    metadata_execute valid images payload True act (dbA, []) = Some (dbB, es) \<longrightarrow>
      map undo_imgid es = images \<and>
      (\<forall>e \<in> set es. valid (undo_imgid e) \<and> even (length (undo_before e)) \<and>
                      even (length (undo_after e)))) \<and>
   (valid img \<and> metadata_execute valid [img] m True action (db0, []) = Some (db1, [e]) \<and>
    distinct (key_ids (undo_after e)) \<longrightarrow>
      (\<exists>db2. pop_undo valid DT_UNDO_METADATA [e] DT_ACTION_UNDO (db1, imgs)
                = Some (db2, img # imgs) \<and>
             pop_undo valid DT_UNDO_METADATA [e] DT_ACTION_REDO (db2, img # imgs)
                = Some (db1, img # img # imgs)) \<and>
      (distinct (key_ids (undo_before e)) \<longrightarrow>
         set (rows_of img db1) =
           set (map (\<lambda>p. (img, atoi (fst p), Some (snd p)))
                  (filter (\<lambda>p. snd p \<noteq> []) (pairs (undo_after e)))))) \<and>
   (list_all valid images \<and> distinct images \<and>
    metadata_execute valid images payload True act (dbA, []) = Some (dbB, es) \<and>
    (\<forall>e \<in> set es. distinct (key_ids (undo_after e))) \<longrightarrow>
      (\<exists>db2 i2 db3 i3.
         pop_undo valid DT_UNDO_METADATA es DT_ACTION_UNDO (dbB, sel) = Some (db2, i2) \<and>
         pop_undo valid DT_UNDO_METADATA es DT_ACTION_REDO (db2, i2) = Some (db3, i3) \<and>
         (\<forall>j. rows_of j db3 = rows_of j dbB)))"
proof -
  have 1: "pop_undo valid DT_UNDO_METADATA es DT_ACTION_UNDO (db, imgs) =
     map_option (\<lambda>d. (d, rev (map undo_imgid es) @ imgs))
       (replay valid (map (\<lambda>e. (undo_imgid e, undo_after e, undo_before e)) es) db)"
    using pop_undo_replay [of valid es DT_ACTION_UNDO db imgs] by simp
  have 2: "pop_undo valid DT_UNDO_METADATA es DT_ACTION_REDO (db, imgs) =
     map_option (\<lambda>d. (d, rev (map undo_imgid es) @ imgs))
       (replay valid (map (\<lambda>e. (undo_imgid e, undo_before e, undo_after e)) es) db)"
    using pop_undo_replay [of valid es DT_ACTION_REDO db imgs] by simp
  have 3: "(\<forall>e \<in> set es. valid (undo_imgid e) \<and> even (length (undo_before e)) \<and>
                    even (length (undo_after e))) \<longrightarrow>
      pop_undo valid DT_UNDO_METADATA es DT_ACTION_UNDO (db, imgs) =
        Some (foldl (\<lambda>d e. apply_diff (undo_imgid e) (undo_after e) (undo_before e) d) db es,
              rev (map undo_imgid es) @ imgs) \<and>
      pop_undo valid DT_UNDO_METADATA es DT_ACTION_REDO (db, imgs) =
        Some (foldl (\<lambda>d e. apply_diff (undo_imgid e) (undo_before e) (undo_after e) d) db es,
              rev (map undo_imgid es) @ imgs)"
    using pop_undo_loop_fold [of es valid DT_ACTION_UNDO db imgs]
      pop_undo_loop_fold [of es valid DT_ACTION_REDO db imgs]
    by (simp add: pop_undo_def)
  have 4: "list_all valid images \<and>
    metadata_execute valid images payload True act (dbA, []) = Some (dbB, es) \<longrightarrow>
      map undo_imgid es = images \<and>
      (\<forall>e \<in> set es. valid (undo_imgid e) \<and> even (length (undo_before e)) \<and>
                      even (length (undo_after e)))"
    using execute_entries_even [of valid images payload act dbA "[]" dbB es] by auto
  have 5: "valid img \<and> metadata_execute valid [img] m True action (db0, []) = Some (db1, [e]) \<and>
    distinct (key_ids (undo_after e)) \<longrightarrow>
      (\<exists>db2. pop_undo valid DT_UNDO_METADATA [e] DT_ACTION_UNDO (db1, imgs)
                = Some (db2, img # imgs) \<and>
             pop_undo valid DT_UNDO_METADATA [e] DT_ACTION_REDO (db2, img # imgs)
                = Some (db1, img # img # imgs)) \<and>
      (distinct (key_ids (undo_before e)) \<longrightarrow>
         set (rows_of img db1) =
           set (map (\<lambda>p. (img, atoi (fst p), Some (snd p)))
                  (filter (\<lambda>p. snd p \<noteq> []) (pairs (undo_after e)))))"
    using undo_redo_entry(1) [of valid img m action db0 db1 e imgs]
      undo_redo_entry(2) [of valid img m action db0 db1 e]
    by blast
  have 6: "list_all valid images \<and> distinct images \<and>
    metadata_execute valid images payload True act (dbA, []) = Some (dbB, es) \<and>
    (\<forall>e \<in> set es. distinct (key_ids (undo_after e))) \<longrightarrow>
      (\<exists>db2 i2 db3 i3.
         pop_undo valid DT_UNDO_METADATA es DT_ACTION_UNDO (dbB, sel) = Some (db2, i2) \<and>
         pop_undo valid DT_UNDO_METADATA es DT_ACTION_REDO (db2, i2) = Some (db3, i3) \<and>
         (\<forall>j. rows_of j db3 = rows_of j dbB))"
    using undo_redo_group [of valid images payload act dbA dbB es sel] by blast
  show ?thesis using 1 2 3 4 5 6 by (intro conjI)
qed

theorem C2_undo_redo_witness:
  "metadata_execute (\<lambda>i. 0 < i) [7] [''1'', ''Bea''] True DT_MA_ADD
     ([(7, 1, Some ''Ann''), (7, 2, Some ''x'')], [])
     = Some ([(7, 2, Some ''x''), (7, 1, Some ''Bea'')],
             [\<lparr>undo_imgid = 7, undo_before = [''1'', ''Ann'', ''2'', ''x''],
                undo_after = [''1'', ''Bea'', ''2'', ''x'']\<rparr>]) \<and>
   (\<exists>db2.
      pop_undo (\<lambda>i. 0 < i) DT_UNDO_METADATA
        [\<lparr>undo_imgid = 7, undo_before = [''1'', ''Ann'', ''2'', ''x''],
           undo_after = [''1'', ''Bea'', ''2'', ''x'']\<rparr>]
        DT_ACTION_UNDO ([(7, 2, Some ''x''), (7, 1, Some ''Bea'')], []) = Some (db2, [7]) \<and>
      pop_undo (\<lambda>i. 0 < i) DT_UNDO_METADATA
        [\<lparr>undo_imgid = 7, undo_before = [''1'', ''Ann'', ''2'', ''x''],
           undo_after = [''1'', ''Bea'', ''2'', ''x'']\<rparr>]
        DT_ACTION_REDO (db2, [7]) = Some ([(7, 2, Some ''x''), (7, 1, Some ''Bea'')], [7, 7])) \<and>
   set (rows_of 7 [(7, 2, Some ''x''), (7, 1, Some ''Bea'')]) =
     set (map (\<lambda>p. (7, atoi (fst p), Some (snd p)))
            (filter (\<lambda>p. snd p \<noteq> []) (pairs [''1'', ''Bea'', ''2'', ''x'']))) \<and>
   metadata_execute (\<lambda>i. 0 < i) [7, 8] [''1'', ''Bea''] True DT_MA_ADD
     ([(7, 1, Some ''Ann''), (8, 2, Some ''x'')], [])
     = Some ([(8, 2, Some ''x''), (7, 1, Some ''Bea''), (8, 1, Some ''Bea'')],
             [\<lparr>undo_imgid = 7, undo_before = [''1'', ''Ann''], undo_after = [''1'', ''Bea'']\<rparr>,
              \<lparr>undo_imgid = 8, undo_before = [''2'', ''x''],
                undo_after = [''2'', ''x'', ''1'', ''Bea'']\<rparr>]) \<and>
   map undo_imgid
     [\<lparr>undo_imgid = 7, undo_before = [''1'', ''Ann''], undo_after = [''1'', ''Bea'']\<rparr>,
      \<lparr>undo_imgid = 8, undo_before = [''2'', ''x''],
        undo_after = [''2'', ''x'', ''1'', ''Bea'']\<rparr>] = [7, 8] \<and>
   pop_undo (\<lambda>i. 0 < i) DT_UNDO_METADATA
     [\<lparr>undo_imgid = 7, undo_before = [''1'', ''Ann''], undo_after = [''1'', ''Bea'']\<rparr>,
      \<lparr>undo_imgid = 8, undo_before = [''2'', ''x''],
        undo_after = [''2'', ''x'', ''1'', ''Bea'']\<rparr>]
     DT_ACTION_UNDO ([(8, 2, Some ''x''), (7, 1, Some ''Bea''), (8, 1, Some ''Bea'')], [])
     = Some ([(8, 2, Some ''x''), (7, 1, Some ''Ann'')], [8, 7]) \<and>
   pop_undo (\<lambda>i. 0 < i) DT_UNDO_METADATA
     [\<lparr>undo_imgid = 7, undo_before = [''1'', ''Ann''], undo_after = [''1'', ''Bea'']\<rparr>,
      \<lparr>undo_imgid = 8, undo_before = [''2'', ''x''],
        undo_after = [''2'', ''x'', ''1'', ''Bea'']\<rparr>]
     DT_ACTION_REDO ([(8, 2, Some ''x''), (7, 1, Some ''Ann'')], [8, 7])
     = Some ([(8, 2, Some ''x''), (7, 1, Some ''Bea''), (8, 1, Some ''Bea'')], [8, 7, 8, 7]) \<and>
   (\<exists>db2 i2 db3 i3.
      pop_undo (\<lambda>i. 0 < i) DT_UNDO_METADATA
        [\<lparr>undo_imgid = 7, undo_before = [''1'', ''Ann''], undo_after = [''1'', ''Bea'']\<rparr>,
         \<lparr>undo_imgid = 8, undo_before = [''2'', ''x''],
           undo_after = [''2'', ''x'', ''1'', ''Bea'']\<rparr>]
        DT_ACTION_UNDO ([(8, 2, Some ''x''), (7, 1, Some ''Bea''), (8, 1, Some ''Bea'')], [])
        = Some (db2, i2) \<and>
      pop_undo (\<lambda>i. 0 < i) DT_UNDO_METADATA
        [\<lparr>undo_imgid = 7, undo_before = [''1'', ''Ann''], undo_after = [''1'', ''Bea'']\<rparr>,
         \<lparr>undo_imgid = 8, undo_before = [''2'', ''x''],
           undo_after = [''2'', ''x'', ''1'', ''Bea'']\<rparr>]
        DT_ACTION_REDO (db2, i2) = Some (db3, i3) \<and>
      (\<forall>j. rows_of j db3 =
           rows_of j [(8, 2, Some ''x''), (7, 1, Some ''Bea''), (8, 1, Some ''Bea'')]))"
proof -
  let ?e = "\<lparr>undo_imgid = 7, undo_before = [''1'', ''Ann'', ''2'', ''x''],
           undo_after = [''1'', ''Bea'', ''2'', ''x'']\<rparr>"
  let ?es = "[\<lparr>undo_imgid = 7, undo_before = [''1'', ''Ann''], undo_after = [''1'', ''Bea'']\<rparr>,
          \<lparr>undo_imgid = 8, undo_before = [''2'', ''x''],
            undo_after = [''2'', ''x'', ''1'', ''Bea'']\<rparr>]"
  let ?dbB = "[(8, 2, Some ''x''), (7, 1, Some ''Bea''), (8, 1, Some ''Bea'')]"
  let ?db2 = "[(8, 2, Some ''x''), (7, 1, Some ''Ann'')]"
  have x: "metadata_execute (\<lambda>i. 0 < i) [7] [''1'', ''Bea''] True DT_MA_ADD
     ([(7, 1, Some ''Ann''), (7, 2, Some ''x'')], [])
     = Some ([(7, 2, Some ''x''), (7, 1, Some ''Bea'')], [?e])"
    by code_simp
  have da: "distinct (key_ids [''1'', ''Bea'', ''2'', ''x''])" by code_simp
  have db: "distinct (key_ids [''1'', ''Ann'', ''2'', ''x''])" by code_simp
  have y: "metadata_execute (\<lambda>i. 0 < i) [7, 8] [''1'', ''Bea''] True DT_MA_ADD
     ([(7, 1, Some ''Ann''), (8, 2, Some ''x'')], []) = Some (?dbB, ?es)"
    by code_simp
  have dg: "distinct (key_ids [''1'', ''Bea''])" "distinct (key_ids [''2'', ''x'', ''1'', ''Bea''])"
    by code_simp+
  have ok: "\<forall>e \<in> set ?es. 0 < undo_imgid e \<and> even (length (undo_before e)) \<and>
              even (length (undo_after e))"
    by simp
  have fu: "foldl (\<lambda>d e. apply_diff (undo_imgid e) (undo_after e) (undo_before e) d) ?dbB ?es
              = ?db2"
    by code_simp
  have fr: "foldl (\<lambda>d e. apply_diff (undo_imgid e) (undo_before e) (undo_after e) d) ?db2 ?es
              = ?dbB"
    by code_simp
  note inst = C2_undo_redo [where valid = "\<lambda>i. 0 < i" and e = ?e
      and ?db1.0 = "[(7, 2, Some ''x''), (7, 1, Some ''Bea'')]" and imgs = "[]" and img = 7
      and m = "[''1'', ''Bea'']" and action = DT_MA_ADD
      and ?db0.0 = "[(7, 1, Some ''Ann''), (7, 2, Some ''x'')]"
      and images = "[7, 8]" and payload = "[''1'', ''Bea'']" and act = DT_MA_ADD
      and dbA = "[(7, 1, Some ''Ann''), (8, 2, Some ''x'')]" and dbB = ?dbB and es = ?es
      and sel = "[]"]
  note undo = inst [where db = ?dbB, THEN conjunct2, THEN conjunct2, THEN conjunct1]
  note redo = C2_undo_redo [where valid = "\<lambda>i. 0 < i" and es = ?es and db = ?db2
      and imgs = "[8, 7]", THEN conjunct2, THEN conjunct2, THEN conjunct1]
  have single: "(\<exists>db2.
      pop_undo (\<lambda>i. 0 < i) DT_UNDO_METADATA [?e]
        DT_ACTION_UNDO ([(7, 2, Some ''x''), (7, 1, Some ''Bea'')], []) = Some (db2, [7]) \<and>
      pop_undo (\<lambda>i. 0 < i) DT_UNDO_METADATA [?e]
        DT_ACTION_REDO (db2, [7]) = Some ([(7, 2, Some ''x''), (7, 1, Some ''Bea'')], [7, 7])) \<and>
   set (rows_of 7 [(7, 2, Some ''x''), (7, 1, Some ''Bea'')]) =
     set (map (\<lambda>p. (7, atoi (fst p), Some (snd p)))
            (filter (\<lambda>p. snd p \<noteq> []) (pairs [''1'', ''Bea'', ''2'', ''x''])))"
    using x da db
      inst [THEN conjunct2, THEN conjunct2, THEN conjunct2, THEN conjunct2, THEN conjunct1]
    by (simp del: metadata_execute.simps)
  have ids: "map undo_imgid ?es = [7, 8]"
    using y inst [THEN conjunct2, THEN conjunct2, THEN conjunct2, THEN conjunct1]
    by (simp del: metadata_execute.simps)
  have u: "pop_undo (\<lambda>i. 0 < i) DT_UNDO_METADATA ?es DT_ACTION_UNDO (?dbB, []) = Some (?db2, [8, 7])"
    using ok undo fu by (simp del: pop_undo_loop.simps foldl.simps)
  have r: "pop_undo (\<lambda>i. 0 < i) DT_UNDO_METADATA ?es DT_ACTION_REDO (?db2, [8, 7])
             = Some (?dbB, [8, 7, 8, 7])"
    using ok redo fr by (simp del: pop_undo_loop.simps foldl.simps)
  have group: "\<exists>db2 i2 db3 i3.
      pop_undo (\<lambda>i. 0 < i) DT_UNDO_METADATA ?es DT_ACTION_UNDO (?dbB, []) = Some (db2, i2) \<and>
      pop_undo (\<lambda>i. 0 < i) DT_UNDO_METADATA ?es DT_ACTION_REDO (db2, i2) = Some (db3, i3) \<and>
      (\<forall>j. rows_of j db3 = rows_of j ?dbB)"
    using y dg
      inst [THEN conjunct2, THEN conjunct2, THEN conjunct2, THEN conjunct2, THEN conjunct2]
    by (simp del: metadata_execute.simps pop_undo_loop.simps)
  show ?thesis using x y single ids u r group by (intro conjI) blast+
qed

text \<open>
  The claim as stated fails. Setting key 1 of entity 7, which has no rows, to the
  empty value records the after snapshot \<open>["1", ""]\<close>; after Undo and Redo the
  entity has no rows and reads as the empty snapshot. Replacing the snapshot
  \<open>["1", "a"]\<close> of entity 7 by \<open>["1", "a", "1", "b"]\<close> leaves two rows; Undo
  deletes both and Redo inserts only the second.
\<close>

theorem C2_counterexample:
  "metadata_execute (\<lambda>i. 0 < i) [7] [''1'', ''''] True DT_MA_ADD ([], [])
     = Some ([], [\<lparr>undo_imgid = 7, undo_before = [], undo_after = [''1'', '''']\<rparr>]) \<and>
   pop_undo (\<lambda>i. 0 < i) DT_UNDO_METADATA
     [\<lparr>undo_imgid = 7, undo_before = [], undo_after = [''1'', '''']\<rparr>]
     DT_ACTION_UNDO ([], []) = Some ([], [7]) \<and>
   pop_undo (\<lambda>i. 0 < i) DT_UNDO_METADATA
     [\<lparr>undo_imgid = 7, undo_before = [], undo_after = [''1'', '''']\<rparr>]
     DT_ACTION_REDO ([], [7]) = Some ([], [7, 7]) \<and>
   dt_metadata_get_list_id (\<lambda>i. 0 < i) [] 7 = [] \<and>
   metadata_execute (\<lambda>i. 0 < i) [7] [''1'', ''a'', ''1'', ''b''] True DT_MA_SET
     ([(7, 1, Some ''a'')], [])
     = Some ([(7, 1, Some ''a''), (7, 1, Some ''b'')],
             [\<lparr>undo_imgid = 7, undo_before = [''1'', ''a''],
                undo_after = [''1'', ''a'', ''1'', ''b'']\<rparr>]) \<and>
   pop_undo (\<lambda>i. 0 < i) DT_UNDO_METADATA
     [\<lparr>undo_imgid = 7, undo_before = [''1'', ''a''],
        undo_after = [''1'', ''a'', ''1'', ''b'']\<rparr>]
     DT_ACTION_UNDO ([(7, 1, Some ''a''), (7, 1, Some ''b'')], []) = Some ([], [7]) \<and>
   pop_undo (\<lambda>i. 0 < i) DT_UNDO_METADATA
     [\<lparr>undo_imgid = 7, undo_before = [''1'', ''a''],
        undo_after = [''1'', ''a'', ''1'', ''b'']\<rparr>]
     DT_ACTION_REDO ([], [7]) = Some ([(7, 1, Some ''b'')], [7, 7])"
  by code_simp

subsection \<open>MergeAdd\<close>

text \<open>
  C3. Under MergeAdd (action \<open>DT_MA_ADD\<close>) the after snapshot is the before snapshot
  with the pairs of the payload merged in, one after the other: a key that is present
  has the value of its first pair overwritten in place, a key that is not present is
  appended with its value; the other pairs keep their places.
\<close>

theorem C3_merge_add:
  assumes "even (length b)" and "even (length m)"
  shows "metadata_after DT_MA_ADD b m = Some (unpairs (merge_add (pairs b) (pairs m)))"
proof -
  obtain l' where l': "metadata_add_metadata_to_list b m = Some l'" "even (length l')"
      "pairs l' = merge_add (pairs b) (pairs m)"
    using add_even [OF assms] by blast
  have "unpairs (merge_add (pairs b) (pairs m)) = l'"
    using l' unpairs_pairs [of l'] by simp
  then show ?thesis
    using l' by (simp add: metadata_after_def DT_MA_ADD_def DT_MA_SET_def)
qed

theorem C3_merge_add_witness:
  "even (length [''1'', ''a'', ''2'', ''b'']) \<and> even (length [''2'', ''c'', ''3'', ''d'']) \<and>
   metadata_after DT_MA_ADD [''1'', ''a'', ''2'', ''b''] [''2'', ''c'', ''3'', ''d'']
     = Some [''1'', ''a'', ''2'', ''c'', ''3'', ''d'']"
  using C3_merge_add [of "[''1'', ''a'', ''2'', ''b'']" "[''2'', ''c'', ''3'', ''d'']"]
  by (simp add: unpairs_def merge_add_def merge_pair_def)

subsection \<open>A diff with nothing to do\<close>

text \<open>
  C4, as the code has it. A snapshot whose keys are pairwise distinct and whose values
  are all non-empty has an empty diff with itself: no removal and no insertion. More
  generally, when the numeric keys within \<open>b\<close> and within \<open>a\<close> are pairwise
  distinct, a pair \<open>(k, v)\<close> with a non-empty value that is in both contributes
  neither a removal nor an insertion. (A pair with the empty value is always marked for
  removal, and a second pair with a key is compared with the first one.)
\<close>

theorem C4_diff_minimal:
  "(even (length s) \<and> distinct (map fst (pairs s)) \<and> (\<forall>p \<in> set (pairs s). snd p \<noteq> []) \<longrightarrow>
      get_tb_removed_metadata_string_values s s = Some [] \<and>
      get_tb_added_metadata_string_values img s s = Some []) \<and>
   (even (length b) \<and> even (length a) \<and> distinct (key_ids b) \<and> distinct (key_ids a) \<and>
    (k, v) \<in> set (pairs b) \<and> (k, v) \<in> set (pairs a) \<and> v \<noteq> [] \<longrightarrow>
      (\<exists>r ad. get_tb_removed_metadata_string_values b a = Some r \<and>
         get_tb_added_metadata_string_values img b a = Some ad \<and>
         atoi k \<notin> set r \<and> atoi k \<notin> set (map (fst \<circ> snd) ad)))"
  using diff_same_empty [of s img] diff_unchanged_pair [of b a k v img] by blast

theorem C4_diff_minimal_witness:
  "get_tb_removed_metadata_string_values [''1'', ''a'', ''2'', ''b''] [''1'', ''a'', ''2'', ''b'']
     = Some [] \<and>
   get_tb_added_metadata_string_values 7 [''1'', ''a'', ''2'', ''b''] [''1'', ''a'', ''2'', ''b'']
     = Some [] \<and>
   (\<exists>r ad. get_tb_removed_metadata_string_values
              [''1'', ''a'', ''2'', ''b''] [''1'', ''a'', ''2'', ''c''] = Some r \<and>
      get_tb_added_metadata_string_values 7
              [''1'', ''a'', ''2'', ''b''] [''1'', ''a'', ''2'', ''c''] = Some ad \<and>
      atoi ''1'' \<notin> set r \<and> atoi ''1'' \<notin> set (map (fst \<circ> snd) ad))"
  using C4_diff_minimal [of "[''1'', ''a'', ''2'', ''b'']" 7 "[''1'', ''a'', ''2'', ''b'']"
      "[''1'', ''a'', ''2'', ''c'']" "''1''" "''a''"]
  by (simp add: key_ids_def atoi_def isspace_def isdigit_def)

text \<open>
  The claim as stated fails: the snapshot \<open>["1", ""]\<close> has the removal of key 1 in
  its diff with itself, and the snapshot \<open>["1", "a", "1", "b"]\<close> has a removal and
  an insertion in its diff with itself.
\<close>

theorem C4_counterexample:
  "get_tb_removed_metadata_string_values [''1'', ''''] [''1'', ''''] = Some [1] \<and>
   get_tb_removed_metadata_string_values
     [''1'', ''a'', ''1'', ''b''] [''1'', ''a'', ''1'', ''b''] = Some [1] \<and>
   get_tb_added_metadata_string_values 7
     [''1'', ''a'', ''1'', ''b''] [''1'', ''a'', ''1'', ''b''] = Some [(7, 1, ''b'')]"
  by (simp add: different_value_def atoi_def isspace_def isdigit_def)

subsection \<open>Registering a tag name twice\<close>

text \<open>
  C5 does not hold of the code. The registry and the table hold the tag name
  \<open>Xmp.dc.title\<close> with key 1. Registering a second definition with that tag name
  returns \<open>TRUE\<close> and puts a third entry in front of the registry, with the key 1
  of the row that was there: the \<open>SELECT\<close> that is to fetch the new key finds the
  old row, and the result of the rejected \<open>INSERT\<close> is never read.
\<close>

theorem C5_duplicate_registration:
  "fst (dt_metadata_add_metadata 4 (example_state [])
          \<lparr>key = 0, tagname = ''Xmp.dc.title'', name = ''second title'', internal = False,
           visible = True, priv = False, display_order = 9\<rparr>) = True \<and>
   map key (metadata_list (snd (snd (dt_metadata_add_metadata 4 (example_state [])
          \<lparr>key = 0, tagname = ''Xmp.dc.title'', name = ''second title'', internal = False,
           visible = True, priv = False, display_order = 9\<rparr>)))) = [1, 1, 2] \<and>
   map key (metadata_list (example_state [])) = [1, 2]"
  by (simp add: dt_metadata_add_metadata_def insert_meta_data_def
        set_default_import_flag_def Let_def)

subsection \<open>The prefix lookup\<close>

text \<open>
  C6. For every query string the prefix lookup returns the id of the first registered
  definition, in the order of the registry, whose tag name is a prefix of the query;
  it returns the sentinel \<open>-1\<close> when no registered tag name is a prefix of the query
  and when the key is \<open>NULL\<close>. The function is total: it never fails.
\<close>

theorem C6_prefix_lookup:
  "dt_metadata_get_keyid ml None = - 1 \<and>
   dt_metadata_get_keyid ml (Some q) =
     (case find (\<lambda>m. prefix (tagname m) q) ml of
        None \<Rightarrow> - 1
      | Some m \<Rightarrow> key m)"
  by (simp add: dt_metadata_get_keyid_def get_keyid_loop_find)

theorem C6_prefix_lookup_witness:
  "dt_metadata_get_keyid
     [\<lparr>key = 5, tagname = ''a.b'', name = ''b'', internal = False, visible = True,
        priv = False, display_order = 0\<rparr>,
      \<lparr>key = 6, tagname = ''a.bc'', name = ''bc'', internal = False, visible = True,
        priv = False, display_order = 1\<rparr>] (Some ''a.bcd'') = 5 \<and>
   dt_metadata_get_keyid
     [\<lparr>key = 5, tagname = ''a.b'', name = ''b'', internal = False, visible = True,
        priv = False, display_order = 0\<rparr>] (Some ''a'') = - 1"
  using C6_prefix_lookup [of "[\<lparr>key = 5, tagname = ''a.b'', name = ''b'', internal = False,
      visible = True, priv = False, display_order = 0\<rparr>]" "''a''"]
  by (simp add: dt_metadata_get_keyid_def strlen_def)

subsection \<open>Cleaning and deleting\<close>

text \<open>
  C7, as the code has it. \<open>_cleanup_metadata_value\<close> strips the space characters
  (the byte \<open>' '\<close> only) at both ends of a value; an absent value, and exactly the
  values made of spaces only, become the empty string. \<open>dt_metadata_set\<close> and
  \<open>dt_metadata_set_import\<close> write the cleaned value: writing a value and writing its
  cleaned form are the same call, and the table they leave is that of MergeAdd with the
  payload of the key's number and the cleaned value, over the entity (or, for
  \<open>dt_metadata_set\<close> with no valid entity, the images acted on). For a key list of
  even length \<open>dt_metadata_set_list\<close> leaves the table of MergeAdd with the payload
  of the known keys whose value is present, the values cleaned; a pair whose value is
  absent is skipped. For a valid entity whose stored keys are pairwise distinct, each
  of the three returns, and of the key written the entity then has the one row with the
  cleaned value when that is not empty, and no row when it is empty; for
  \<open>dt_metadata_set_list\<close> the value is the one of the last pair of the payload
  with the key.
\<close>

theorem C7_cleanup:
  "cleanup_metadata_value None = [] \<and>
   cleanup_metadata_value (Some v) =
     dropWhile (\<lambda>c. c = CHR '' '') (rev (dropWhile (\<lambda>c. c = CHR '' '') (rev v))) \<and>
   ((cleanup_metadata_value (Some v) = []) = (\<forall>c \<in> set v. c = CHR '' '')) \<and>
   dt_metadata_set valid st img k val undo_on =
     dt_metadata_set valid st img k (Some (cleanup_metadata_value val)) undo_on \<and>
   dt_metadata_set_import valid flag_imported st img k val =
     dt_metadata_set_import valid flag_imported st img k (Some (cleanup_metadata_value val)) \<and>
   map_option main_meta_data (dt_metadata_set valid st img k val undo_on) =
     Some (if sint (dt_metadata_get_keyid (metadata_list st) k) = - 1 then main_meta_data st
           else foldl (\<lambda>d i. merge_add_rows valid
                          [printf_d (sint (dt_metadata_get_keyid (metadata_list st) k)),
                           cleanup_metadata_value val] i d)
                  (main_meta_data st) (if valid img then [img] else act_on_images st)) \<and>
   dt_metadata_set_import valid flag_imported st img k val =
     Some (if valid img
           then (case dt_metadata_get_metadata_by_tagname (metadata_list st) k of
                   None \<Rightarrow> st
                 | Some md \<Rightarrow>
                     if imported flag_imported st md
                     then st\<lparr>main_meta_data :=
                            merge_add_rows valid
                              [printf_d (sint (key md)), cleanup_metadata_value val] img
                              (main_meta_data st)\<rparr>
                     else st)
           else st) \<and>
   (even (length kv) \<longrightarrow>
      set_list_loop (metadata_list st) kv [] = Some (set_list_payload (metadata_list st) kv) \<and>
      map_option main_meta_data (dt_metadata_set_list valid st imgs kv undo_on) =
        Some (if set_list_payload (metadata_list st) kv = [] then main_meta_data st
              else foldl (\<lambda>d i. merge_add_rows valid (set_list_payload (metadata_list st) kv) i d)
                     (main_meta_data st) imgs)) \<and>
   (valid img \<and> sint (dt_metadata_get_keyid (metadata_list st) k) \<noteq> - 1 \<and>
    distinct (map (fst \<circ> snd) (rows_of img (main_meta_data st))) \<longrightarrow>
      (\<exists>st'. dt_metadata_set valid st img k val undo_on = Some st' \<and>
         (\<forall>r \<in> set (rows_of img (main_meta_data st')).
            fst (snd r) = sint (dt_metadata_get_keyid (metadata_list st) k) \<longrightarrow>
            cleanup_metadata_value val \<noteq> [] \<and>
            r = (img, sint (dt_metadata_get_keyid (metadata_list st) k),
                 Some (cleanup_metadata_value val))) \<and>
         (cleanup_metadata_value val \<noteq> [] \<longrightarrow>
            (img, sint (dt_metadata_get_keyid (metadata_list st) k),
             Some (cleanup_metadata_value val)) \<in> set (rows_of img (main_meta_data st'))))) \<and>
   (valid img \<and> dt_metadata_get_metadata_by_tagname (metadata_list st) k = Some md \<and>
    imported flag_imported st md \<and>
    distinct (map (fst \<circ> snd) (rows_of img (main_meta_data st))) \<longrightarrow>
      (\<exists>st'. dt_metadata_set_import valid flag_imported st img k val = Some st' \<and>
         (\<forall>r \<in> set (rows_of img (main_meta_data st')).
            fst (snd r) = sint (key md) \<longrightarrow>
            cleanup_metadata_value val \<noteq> [] \<and>
            r = (img, sint (key md), Some (cleanup_metadata_value val))) \<and>
         (cleanup_metadata_value val \<noteq> [] \<longrightarrow>
            (img, sint (key md), Some (cleanup_metadata_value val))
              \<in> set (rows_of img (main_meta_data st'))))) \<and>
   (valid img \<and> even (length kv) \<and>
    distinct (map (fst \<circ> snd) (rows_of img (main_meta_data st))) \<and>
    map_of (rev (pairs (set_list_payload (metadata_list st) kv))) (printf_d j) = Some c \<longrightarrow>
      (\<exists>st'. dt_metadata_set_list valid st [img] kv undo_on = Some st' \<and>
         (\<forall>r \<in> set (rows_of img (main_meta_data st')).
            fst (snd r) = j \<longrightarrow> c \<noteq> [] \<and> r = (img, j, Some c)) \<and>
         (c \<noteq> [] \<longrightarrow> (img, j, Some c) \<in> set (rows_of img (main_meta_data st')))))"
proof -
  have 1: "cleanup_metadata_value None = []" by (simp add: cleanup_metadata_value_def)
  have 8: "even (length kv) \<longrightarrow>
      set_list_loop (metadata_list st) kv [] = Some (set_list_payload (metadata_list st) kv) \<and>
      map_option main_meta_data (dt_metadata_set_list valid st imgs kv undo_on) =
        Some (if set_list_payload (metadata_list st) kv = [] then main_meta_data st
              else foldl (\<lambda>d i. merge_add_rows valid (set_list_payload (metadata_list st) kv) i d)
                     (main_meta_data st) imgs)"
    using set_list_effect [of kv valid st imgs undo_on]
    by (simp add: set_list_loop_even set_list_payload_def)
  have 9: "valid img \<and> sint (dt_metadata_get_keyid (metadata_list st) k) \<noteq> - 1 \<and>
    distinct (map (fst \<circ> snd) (rows_of img (main_meta_data st))) \<longrightarrow>
      (\<exists>st'. dt_metadata_set valid st img k val undo_on = Some st' \<and>
         (\<forall>r \<in> set (rows_of img (main_meta_data st')).
            fst (snd r) = sint (dt_metadata_get_keyid (metadata_list st) k) \<longrightarrow>
            cleanup_metadata_value val \<noteq> [] \<and>
            r = (img, sint (dt_metadata_get_keyid (metadata_list st) k),
                 Some (cleanup_metadata_value val))) \<and>
         (cleanup_metadata_value val \<noteq> [] \<longrightarrow>
            (img, sint (dt_metadata_get_keyid (metadata_list st) k),
             Some (cleanup_metadata_value val)) \<in> set (rows_of img (main_meta_data st'))))"
    using set_key_rows [of valid img st k val undo_on] by blast
  have 10: "valid img \<and> dt_metadata_get_metadata_by_tagname (metadata_list st) k = Some md \<and>
    imported flag_imported st md \<and>
    distinct (map (fst \<circ> snd) (rows_of img (main_meta_data st))) \<longrightarrow>
      (\<exists>st'. dt_metadata_set_import valid flag_imported st img k val = Some st' \<and>
         (\<forall>r \<in> set (rows_of img (main_meta_data st')).
            fst (snd r) = sint (key md) \<longrightarrow>
            cleanup_metadata_value val \<noteq> [] \<and>
            r = (img, sint (key md), Some (cleanup_metadata_value val))) \<and>
         (cleanup_metadata_value val \<noteq> [] \<longrightarrow>
            (img, sint (key md), Some (cleanup_metadata_value val))
              \<in> set (rows_of img (main_meta_data st'))))"
    using set_import_key_rows [of valid img st k md flag_imported val] by blast
  have 11: "valid img \<and> even (length kv) \<and>
    distinct (map (fst \<circ> snd) (rows_of img (main_meta_data st))) \<and>
    map_of (rev (pairs (set_list_payload (metadata_list st) kv))) (printf_d j) = Some c \<longrightarrow>
      (\<exists>st'. dt_metadata_set_list valid st [img] kv undo_on = Some st' \<and>
         (\<forall>r \<in> set (rows_of img (main_meta_data st')).
            fst (snd r) = j \<longrightarrow> c \<noteq> [] \<and> r = (img, j, Some c)) \<and>
         (c \<noteq> [] \<longrightarrow> (img, j, Some c) \<in> set (rows_of img (main_meta_data st'))))"
    using set_list_key_rows [of valid img kv st j c undo_on] by blast
  show ?thesis
    using 1 cleanup_Some [of v] cleanup_empty_iff [of v]
      set_idem [of valid st img k val undo_on]
      set_import_idem [of valid flag_imported st img k val]
      set_effect [of valid st img k val undo_on]
      set_import_effect [of valid flag_imported st img k val] 8 9 10 11
    by (intro conjI)
qed

theorem C7_cleanup_witness:
  "(\<exists>st'. dt_metadata_set (\<lambda>i. 0 < i)
            (example_state [(7, 1, Some ''T''), (7, 2, Some ''x'')]) 7
            (Some ''Xmp.dc.title'') (Some '' New York '') True = Some st' \<and>
      (7, 1, Some ''New York'') \<in> set (rows_of 7 (main_meta_data st')) \<and>
      (\<forall>r \<in> set (rows_of 7 (main_meta_data st')).
         fst (snd r) = 1 \<longrightarrow> r = (7, 1, Some ''New York''))) \<and>
   (\<exists>st'. dt_metadata_set (\<lambda>i. 0 < i)
            (example_state [(7, 1, Some ''T''), (7, 2, Some ''x'')]) 7
            (Some ''Xmp.dc.title'') (Some ''  '') True = Some st' \<and>
      (\<forall>r \<in> set (rows_of 7 (main_meta_data st')). fst (snd r) \<noteq> 1)) \<and>
   (\<exists>st'. dt_metadata_set_import (\<lambda>i. 0 < i) 4
            (example_state [(7, 1, Some ''T''), (7, 2, Some ''x'')]) 7
            (Some ''Xmp.dc.title'') (Some ''  '') = Some st' \<and>
      (\<forall>r \<in> set (rows_of 7 (main_meta_data st')). fst (snd r) \<noteq> 1)) \<and>
   (\<exists>st'. dt_metadata_set_list (\<lambda>i. 0 < i)
            (example_state [(7, 1, Some ''T''), (7, 2, Some ''x'')]) [7]
            [Some ''Xmp.dc.title'', Some '' a '', Some ''unknown'', Some ''u'',
             Some ''Xmp.dc.title'', Some ''  ''] True = Some st' \<and>
      (\<forall>r \<in> set (rows_of 7 (main_meta_data st')). fst (snd r) \<noteq> 1)) \<and>
   set_list_loop [title_md, version_md]
     [Some ''Xmp.dc.title'', Some '' a '', Some ''unknown'', Some ''u'',
      Some ''Xmp.dc.title'', Some ''  ''] [] = Some [''1'', ''a'', ''1'', []] \<and>
   map_option main_meta_data
     (dt_metadata_set_list (\<lambda>i. 0 < i)
        (example_state [(7, 1, Some ''T''), (7, 2, Some ''x'')]) [7]
        [Some ''Xmp.dc.title'', Some '' a '', Some ''unknown'', Some ''u'',
         Some ''Xmp.dc.title'', Some ''  ''] True) = Some [(7, 2, Some ''x'')]"
proof -
  let ?st = "example_state [(7, 1, Some ''T''), (7, 2, Some ''x'')]"
  let ?kv = "[Some ''Xmp.dc.title'', Some '' a '', Some ''unknown'', Some ''u'',
              Some ''Xmp.dc.title'', Some ''  '']"
  have f1: "sint (dt_metadata_get_keyid [title_md, version_md] (Some ''Xmp.dc.title'')) = 1"
    by code_simp
  have f2: "cleanup_metadata_value (Some ''  '') = []" by code_simp
  have f2': "cleanup_metadata_value (Some '' New York '') = ''New York''" by code_simp
  have f3: "distinct (map (fst \<circ> snd) (rows_of 7 [(7, 1, Some ''T''), (7, 2, Some ''x'')]))"
    by code_simp
  have f4: "dt_metadata_get_metadata_by_tagname [title_md, version_md] (Some ''Xmp.dc.title'')
              = Some title_md"
    by simp
  have f5: "imported 4 ?st title_md"
    by (simp add: imported_def)
  have f6: "set_list_payload [title_md, version_md] ?kv = [''1'', ''a'', ''1'', []]"
    by code_simp
  have f7: "map_of (rev (pairs [''1'', ''a'', ''1'', []])) (printf_d 1) = Some []"
    by code_simp
  have f8: "(if set_list_payload (metadata_list ?st) ?kv = [] then main_meta_data ?st
             else foldl (\<lambda>d i. merge_add_rows (\<lambda>i. 0 < i)
                             (set_list_payload (metadata_list ?st) ?kv) i d)
                    (main_meta_data ?st) [7]) = [(7, 2, Some ''x'')]"
    by code_simp
  note a = C7_cleanup [where valid = "\<lambda>i. 0 < i" and st = ?st and img = 7
      and k = "Some ''Xmp.dc.title''" and val = "Some '' New York ''" and undo_on = True]
  note b = C7_cleanup [where valid = "\<lambda>i. 0 < i" and st = ?st and img = 7
      and k = "Some ''Xmp.dc.title''" and val = "Some ''  ''" and undo_on = True
      and flag_imported = 4 and md = title_md and kv = ?kv and imgs = "[7]" and j = 1
      and c = "[]"]
  have 1: "\<exists>st'. dt_metadata_set (\<lambda>i. 0 < i) ?st 7
            (Some ''Xmp.dc.title'') (Some '' New York '') True = Some st' \<and>
      (7, 1, Some ''New York'') \<in> set (rows_of 7 (main_meta_data st')) \<and>
      (\<forall>r \<in> set (rows_of 7 (main_meta_data st')).
         fst (snd r) = 1 \<longrightarrow> r = (7, 1, Some ''New York''))"
    using f1 f2' f3 a [THEN conjunct2, THEN conjunct2, THEN conjunct2, THEN conjunct2,
      THEN conjunct2, THEN conjunct2, THEN conjunct2, THEN conjunct2, THEN conjunct1]
    by (simp del: metadata_execute.simps) blast
  have 2: "\<exists>st'. dt_metadata_set (\<lambda>i. 0 < i) ?st 7
            (Some ''Xmp.dc.title'') (Some ''  '') True = Some st' \<and>
      (\<forall>r \<in> set (rows_of 7 (main_meta_data st')). fst (snd r) \<noteq> 1)"
    using f1 f2 f3 b [THEN conjunct2, THEN conjunct2, THEN conjunct2, THEN conjunct2,
      THEN conjunct2, THEN conjunct2, THEN conjunct2, THEN conjunct2, THEN conjunct1]
    by (simp del: metadata_execute.simps)
  have 3: "\<exists>st'. dt_metadata_set_import (\<lambda>i. 0 < i) 4 ?st 7
            (Some ''Xmp.dc.title'') (Some ''  '') = Some st' \<and>
      (\<forall>r \<in> set (rows_of 7 (main_meta_data st')). fst (snd r) \<noteq> 1)"
    using f2 f3 f4 f5 b [THEN conjunct2, THEN conjunct2, THEN conjunct2, THEN conjunct2,
      THEN conjunct2, THEN conjunct2, THEN conjunct2, THEN conjunct2, THEN conjunct2,
      THEN conjunct1]
    by (simp del: metadata_execute.simps dt_metadata_get_metadata_by_tagname.simps)
  have 4: "\<exists>st'. dt_metadata_set_list (\<lambda>i. 0 < i) ?st [7] ?kv True = Some st' \<and>
      (\<forall>r \<in> set (rows_of 7 (main_meta_data st')). fst (snd r) \<noteq> 1)"
    using f3 f6 f7 b [THEN conjunct2, THEN conjunct2, THEN conjunct2, THEN conjunct2,
      THEN conjunct2, THEN conjunct2, THEN conjunct2, THEN conjunct2, THEN conjunct2,
      THEN conjunct2]
    by (simp del: metadata_execute.simps set_list_loop.simps)
  note l = b [THEN conjunct2, THEN conjunct2, THEN conjunct2, THEN conjunct2,
      THEN conjunct2, THEN conjunct2, THEN conjunct2, THEN conjunct1]
  have 5: "set_list_loop [title_md, version_md] ?kv [] = Some [''1'', ''a'', ''1'', []]"
    using f6 l by (simp del: set_list_loop.simps)
  have "map_option main_meta_data (dt_metadata_set_list (\<lambda>i. 0 < i) ?st [7] ?kv True) =
     Some (if set_list_payload (metadata_list ?st) ?kv = [] then main_meta_data ?st
             else foldl (\<lambda>d i. merge_add_rows (\<lambda>i. 0 < i)
                             (set_list_payload (metadata_list ?st) ?kv) i d)
                    (main_meta_data ?st) [7])"
    using l by (simp del: set_list_loop.simps foldl.simps)
  then have 6: "map_option main_meta_data (dt_metadata_set_list (\<lambda>i. 0 < i) ?st [7] ?kv True) =
     Some [(7, 2, Some ''x'')]"
    unfolding f8 .
  show ?thesis using 1 2 3 4 5 6 by (intro conjI)
qed

text \<open>
  The claim as stated fails: \<open>dt_metadata_set_list\<close> with an absent value for a known
  key leaves the stored value of the key in place; a value made of a tab is white space
  and is not changed by the cleaning; and with two rows for the key, writing a blank
  value through \<open>dt_metadata_set\<close> leaves the second row.
\<close>

theorem C7_counterexample:
  "map_option main_meta_data
     (dt_metadata_set_list (\<lambda>i. 0 < i) (example_state [(7, 1, Some ''T'')]) [7]
        [Some ''Xmp.dc.title'', None] True) = Some [(7, 1, Some ''T'')] \<and>
   cleanup_metadata_value (Some [CHR 0x09]) = [CHR 0x09] \<and>
   map_option main_meta_data
     (dt_metadata_set (\<lambda>i. 0 < i) (example_state [(7, 1, Some ''a''), (7, 1, Some ''b'')]) 7
        (Some ''Xmp.dc.title'') (Some '' '') True) = Some [(7, 1, Some ''b'')]"
  by code_simp

subsection \<open>Clearing\<close>

text \<open>
  C8, as the code has it. The key list \<open>dt_metadata_clear\<close> builds holds exactly the
  keys of the registered definitions that are not internal and are visible, in the order
  of the registry, and the table the clear leaves is that of RemoveMatching with this
  list over the entities, entity by entity (nothing is done for an empty list).
  RemoveMatching on a snapshot deletes, for every key of the list, the first pair with
  the key, and leaves the pairs whose key is not in the list as they were, in the same
  order; \<open>dt_metadata_clear\<close> always returns, and this holds of the before and after
  snapshots of every entity it clears. In the table, for a valid entity whose stored
  keys are pairwise distinct, the clear adds no row, leaves no row with a key of the
  list, and keeps every row whose key is not in the list and whose value is not
  empty. When the keys of the registry are pairwise distinct, the key of a definition
  that is internal or not visible, as a snapshot writes it, is not in the list.
\<close>

theorem C8_clear:
  "rev (clear_loop (metadata_list st) []) = clear_keys (metadata_list st) \<and>
   map_option main_meta_data (dt_metadata_clear valid st imgs undo_on) =
     Some (if clear_keys (metadata_list st) = [] then main_meta_data st
           else foldl (\<lambda>d i. remove_matching_rows valid (clear_keys (metadata_list st)) i d)
                  (main_meta_data st) imgs) \<and>
   (even (length b) \<longrightarrow>
      metadata_after DT_MA_REMOVE b ks = Some (unpairs (remove_matching (pairs b) ks)) \<and>
      unlisted ks (unpairs (remove_matching (pairs b) ks)) = unlisted ks b) \<and>
   (\<exists>st'. dt_metadata_clear valid st imgs True = Some st' \<and>
      (clear_keys (metadata_list st) \<noteq> [] \<longrightarrow>
         (\<exists>undo. undo_records st' = undo # undo_records st \<and> map undo_imgid undo = imgs \<and>
            (\<forall>e \<in> set undo.
               unlisted (clear_keys (metadata_list st)) (undo_after e) =
               unlisted (clear_keys (metadata_list st)) (undo_before e))))) \<and>
   (valid img \<and> distinct (map (fst \<circ> snd) (rows_of img (main_meta_data st))) \<longrightarrow>
      (\<exists>st'. dt_metadata_clear valid st [img] undo_on = Some st' \<and>
         set (rows_of img (main_meta_data st')) \<subseteq> set (rows_of img (main_meta_data st)) \<and>
         (\<forall>r \<in> set (rows_of img (main_meta_data st')).
            printf_d (fst (snd r)) \<notin> set (clear_keys (metadata_list st))) \<and>
         (\<forall>r \<in> set (rows_of img (main_meta_data st)).
            printf_d (fst (snd r)) \<notin> set (clear_keys (metadata_list st)) \<and>
            snd (row_pair r) \<noteq> [] \<longrightarrow> r \<in> set (rows_of img (main_meta_data st'))))) \<and>
   (distinct (map key (metadata_list st)) \<and> md \<in> set (metadata_list st) \<and>
    (internal md \<or> \<not> visible md) \<longrightarrow>
      printf_d (sint (key md)) \<notin> set (clear_keys (metadata_list st)))"
proof -
  have 1: "rev (clear_loop (metadata_list st) []) = clear_keys (metadata_list st)"
    by (simp add: clear_loop_acc clear_keys_def)
  have 3: "even (length b) \<longrightarrow>
      metadata_after DT_MA_REMOVE b ks = Some (unpairs (remove_matching (pairs b) ks)) \<and>
      unlisted ks (unpairs (remove_matching (pairs b) ks)) = unlisted ks b"
    using remove_keeps_unlisted [of b ks] remove_matching_after [of b ks]
    by (auto simp: unlisted_def)
  have 5: "valid img \<and> distinct (map (fst \<circ> snd) (rows_of img (main_meta_data st))) \<longrightarrow>
      (\<exists>st'. dt_metadata_clear valid st [img] undo_on = Some st' \<and>
         set (rows_of img (main_meta_data st')) \<subseteq> set (rows_of img (main_meta_data st)) \<and>
         (\<forall>r \<in> set (rows_of img (main_meta_data st')).
            printf_d (fst (snd r)) \<notin> set (clear_keys (metadata_list st))) \<and>
         (\<forall>r \<in> set (rows_of img (main_meta_data st)).
            printf_d (fst (snd r)) \<notin> set (clear_keys (metadata_list st)) \<and>
            snd (row_pair r) \<noteq> [] \<longrightarrow> r \<in> set (rows_of img (main_meta_data st'))))"
  proof (intro impI)
    assume h: "valid img \<and> distinct (map (fst \<circ> snd) (rows_of img (main_meta_data st)))"
    obtain s1 where s1: "dt_metadata_clear valid st [img] undo_on = Some s1"
        "set (rows_of img (main_meta_data s1)) \<subseteq> set (rows_of img (main_meta_data st))"
        "\<forall>r \<in> set (rows_of img (main_meta_data st)).
            printf_d (fst (snd r)) \<notin> set (clear_keys (metadata_list st)) \<and>
            snd (row_pair r) \<noteq> [] \<longrightarrow> r \<in> set (rows_of img (main_meta_data s1))"
      using clear_rows [of valid img st undo_on] h by blast
    obtain s2 where s2: "dt_metadata_clear valid st [img] undo_on = Some s2"
        "\<forall>r \<in> set (rows_of img (main_meta_data s2)).
            printf_d (fst (snd r)) \<notin> set (clear_keys (metadata_list st))"
      using clear_listed_rows [of valid img st undo_on] h by blast
    have "s2 = s1" using s1(1) s2(1) by simp
    then show "\<exists>st'. dt_metadata_clear valid st [img] undo_on = Some st' \<and>
         set (rows_of img (main_meta_data st')) \<subseteq> set (rows_of img (main_meta_data st)) \<and>
         (\<forall>r \<in> set (rows_of img (main_meta_data st')).
            printf_d (fst (snd r)) \<notin> set (clear_keys (metadata_list st))) \<and>
         (\<forall>r \<in> set (rows_of img (main_meta_data st)).
            printf_d (fst (snd r)) \<notin> set (clear_keys (metadata_list st)) \<and>
            snd (row_pair r) \<noteq> [] \<longrightarrow> r \<in> set (rows_of img (main_meta_data st')))"
      using s1 s2 by blast
  qed
  have 6: "distinct (map key (metadata_list st)) \<and> md \<in> set (metadata_list st) \<and>
    (internal md \<or> \<not> visible md) \<longrightarrow>
      printf_d (sint (key md)) \<notin> set (clear_keys (metadata_list st))"
    using hidden_key_not_listed [of "metadata_list st" md] by (simp add: clear_keys_def)
  show ?thesis
    using 1 clear_effect [of valid st imgs undo_on] 3 clear_total [of valid st imgs] 5 6
    by (intro conjI)
qed

theorem C8_clear_witness:
  "clear_keys [title_md, version_md] = [''1''] \<and>
   metadata_after DT_MA_REMOVE [''1'', ''T'', ''2'', ''V''] [''1''] = Some [''2'', ''V''] \<and>
   (\<exists>st' undo.
      dt_metadata_clear (\<lambda>i. 0 < i) (example_state [(7, 1, Some ''T''), (7, 2, Some ''V'')])
        [7] True = Some st' \<and>
      undo_records st' = [undo] \<and> map undo_imgid undo = [7] \<and>
      (\<forall>e \<in> set undo. unlisted [''1''] (undo_after e) = unlisted [''1''] (undo_before e))) \<and>
   (\<exists>st'.
      dt_metadata_clear (\<lambda>i. 0 < i) (example_state [(7, 1, Some ''T''), (7, 2, Some ''V'')])
        [7] False = Some st' \<and>
      (7, 2, Some ''V'') \<in> set (rows_of 7 (main_meta_data st')) \<and>
      (7, 1, Some ''T'') \<notin> set (rows_of 7 (main_meta_data st'))) \<and>
   printf_d (sint (2 :: 32 word)) \<notin> set [''1'']"
proof -
  let ?st = "example_state [(7, 1, Some ''T''), (7, 2, Some ''V'')]"
  have k: "clear_keys [title_md, version_md] = [''1'']" by code_simp
  have p: "printf_d 2 \<noteq> ''1''" by code_simp
  have q: "printf_d 1 = ''1''" by code_simp
  have d: "distinct (map (fst \<circ> snd) (rows_of 7 [(7, 1, Some ''T''), (7, 2, Some ''V'')]))"
    by code_simp
  have r: "(7, 2, Some ''V'') \<in> set (rows_of 7 [(7, 1, Some ''T''), (7, 2, Some ''V'')])"
    by (simp add: rows_of_def)
  have v: "snd (row_pair (7, 2, Some ''V'')) \<noteq> []" by (simp add: row_pair_def)
  have u: "unpairs (remove_matching (pairs [''1'', ''T'', ''2'', ''V'']) [''1'']) = [''2'', ''V'']"
    by code_simp
  note a = C8_clear [where st = ?st and valid = "\<lambda>i. 0 < i" and imgs = "[7]" and md = version_md
      and b = "[''1'', ''T'', ''2'', ''V'']" and ks = "[''1'']" and img = 7 and undo_on = False]
  have 2: "metadata_after DT_MA_REMOVE [''1'', ''T'', ''2'', ''V''] [''1''] = Some [''2'', ''V'']"
    using u a [THEN conjunct2, THEN conjunct2, THEN conjunct1] by simp
  have 3: "\<exists>st' undo.
      dt_metadata_clear (\<lambda>i. 0 < i) ?st [7] True = Some st' \<and>
      undo_records st' = [undo] \<and> map undo_imgid undo = [7] \<and>
      (\<forall>e \<in> set undo. unlisted [''1''] (undo_after e) = unlisted [''1''] (undo_before e))"
    using k a [THEN conjunct2, THEN conjunct2, THEN conjunct2, THEN conjunct1] by auto
  have "\<exists>st'. dt_metadata_clear (\<lambda>i. 0 < i) ?st [7] False = Some st' \<and>
      set (rows_of 7 (main_meta_data st'))
        \<subseteq> set (rows_of 7 [(7, 1, Some ''T''), (7, 2, Some ''V'')]) \<and>
      (\<forall>r \<in> set (rows_of 7 (main_meta_data st')). printf_d (fst (snd r)) \<noteq> ''1'') \<and>
      (\<forall>r \<in> set (rows_of 7 [(7, 1, Some ''T''), (7, 2, Some ''V'')]).
         printf_d (fst (snd r)) \<noteq> ''1'' \<and> snd (row_pair r) \<noteq> [] \<longrightarrow>
         r \<in> set (rows_of 7 (main_meta_data st')))"
    using k d
      a [THEN conjunct2, THEN conjunct2, THEN conjunct2, THEN conjunct2, THEN conjunct1]
    by simp
  then obtain st' where s: "dt_metadata_clear (\<lambda>i. 0 < i) ?st [7] False = Some st'"
      "\<forall>r \<in> set (rows_of 7 (main_meta_data st')). printf_d (fst (snd r)) \<noteq> ''1''"
      "\<forall>r \<in> set (rows_of 7 [(7, 1, Some ''T''), (7, 2, Some ''V'')]).
         printf_d (fst (snd r)) \<noteq> ''1'' \<and> snd (row_pair r) \<noteq> [] \<longrightarrow>
         r \<in> set (rows_of 7 (main_meta_data st'))"
    by blast
  have kept: "(7, 2, Some ''V'') \<in> set (rows_of 7 (main_meta_data st'))"
    using s(3) r v p by force
  have gone: "(7, 1, Some ''T'') \<notin> set (rows_of 7 (main_meta_data st'))"
    using s(2) q by force
  have 4: "\<exists>st'.
      dt_metadata_clear (\<lambda>i. 0 < i) ?st [7] False = Some st' \<and>
      (7, 2, Some ''V'') \<in> set (rows_of 7 (main_meta_data st')) \<and>
      (7, 1, Some ''T'') \<notin> set (rows_of 7 (main_meta_data st'))"
    using s(1) kept gone by blast
  have 5: "printf_d (sint (2 :: 32 word)) \<notin> set [''1'']"
    using k a [THEN conjunct2, THEN conjunct2, THEN conjunct2, THEN conjunct2, THEN conjunct2]
    by simp
  show ?thesis using k 2 3 4 5 by (intro conjI)
qed

text \<open>
  The claim as stated fails in the table. The registry lists key 1 only; key 2 is
  internal. Clearing entity 7, whose row for key 2 has the empty value, deletes that
  row with the row of key 1: the diff removes every pair of the before snapshot whose
  value is empty. Clearing entity 7 with two rows for key 2 leaves one of them: the
  first-match diff removes the key and inserts the second pair again.
\<close>

theorem C8_counterexample:
  "clear_keys [title_md, version_md] = [''1''] \<and>
   dt_metadata_get_list_id (\<lambda>i. 0 < i) [(7, 1, Some ''T''), (7, 2, Some [])] 7
     = [''1'', ''T'', ''2'', []] \<and>
   map_option main_meta_data
     (dt_metadata_clear (\<lambda>i. 0 < i) (example_state [(7, 1, Some ''T''), (7, 2, Some [])])
        [7] True) = Some [] \<and>
   dt_metadata_get_list_id (\<lambda>i. 0 < i)
     [(7, 2, Some ''a''), (7, 2, Some ''b''), (7, 1, Some ''T'')] 7
     = [''2'', ''a'', ''2'', ''b'', ''1'', ''T''] \<and>
   map_option main_meta_data
     (dt_metadata_clear (\<lambda>i. 0 < i)
        (example_state [(7, 2, Some ''a''), (7, 2, Some ''b''), (7, 1, Some ''T'')])
        [7] True) = Some [(7, 2, Some ''b'')]"
  by code_simp

subsection \<open>The pairing invariant\<close>

text \<open>
  C9. The snapshot read for an entity has even length and is the sequence of the
  (key, value) pairs of the entity's rows; merging a payload of even length into a
  snapshot of even length returns a snapshot of even length; removing keys from a
  snapshot of even length returns a snapshot of even length. Neither operation fails
  on such lists.
\<close>

theorem C9_pairing_invariant:
  "even (length (dt_metadata_get_list_id valid db img)) \<and>
   (valid img \<longrightarrow>
      dt_metadata_get_list_id valid db img = unpairs (map row_pair (rows_of img db))) \<and>
   (even (length b) \<and> even (length m) \<longrightarrow>
      (\<exists>a. metadata_add_metadata_to_list b m = Some a \<and> even (length a))) \<and>
   (even (length b) \<longrightarrow>
      (\<exists>a. metadata_remove_metadata_from_list b ks = Some a \<and> even (length a)))"
proof -
  have "valid img \<longrightarrow>
      dt_metadata_get_list_id valid db img = unpairs (map row_pair (rows_of img db))"
    by (simp add: get_list_id_unpairs rows_of_def case_prod_unfold)
  then show ?thesis
    using get_list_id_even [of valid db img] add_even [of b m]
      remove_even [of b ks "\<lambda>p. False"]
    by blast
qed

theorem C9_pairing_invariant_witness:
  "dt_metadata_get_list_id (\<lambda>i. 0 < i) [(7, 1, Some ''Ann''), (8, 1, None)] 7
     = unpairs (map row_pair (rows_of 7 [(7, 1, Some ''Ann''), (8, 1, None)])) \<and>
   even (length (dt_metadata_get_list_id (\<lambda>i. 0 < i) [(7, 1, Some ''Ann''), (8, 1, None)] 7)) \<and>
   (\<exists>a. metadata_add_metadata_to_list [''1'', ''Ann''] [''2'', ''x''] = Some a \<and>
      even (length a)) \<and>
   (\<exists>a. metadata_remove_metadata_from_list [''1'', ''Ann''] [''1''] = Some a \<and>
      even (length a))"
  using C9_pairing_invariant [of "\<lambda>i. 0 < i" "[(7, 1, Some ''Ann''), (8, 1, None)]" 7
      "[''1'', ''Ann'']" "[''2'', ''x'']" "[''1'']"]
  by (simp add: length_unpairs
        del: metadata_add_metadata_to_list.simps metadata_remove_metadata_from_list.simps)

subsection \<open>Import writes without undo\<close>

text \<open>
  C10. \<open>dt_metadata_set_import\<close> always returns, and the undo records after it are
  those before it, for every entity, key and value: it runs \<open>_metadata_execute\<close>
  with \<open>undo_on = FALSE\<close> and records nothing. With \<open>undo_on = FALSE\<close>
  \<open>_metadata_execute\<close> leaves the list \<open>*undo\<close> as it was.
\<close>

theorem C10_import_no_undo:
  "(\<exists>st'. dt_metadata_set_import valid flag_imported st img k val = Some st' \<and>
       undo_records st' = undo_records st) \<and>
   (metadata_execute valid imgs m False action (db, undo) = Some (db', undo') \<longrightarrow>
       undo' = undo)"
  using set_import_total [of valid flag_imported st img k val]
    metadata_execute_no_undo [of valid imgs m action db undo db' undo']
  by blast

theorem C10_import_no_undo_witness:
  "(\<exists>st'. dt_metadata_set_import (\<lambda>i. 0 < i) 4 (example_state []) 7
       (Some ''Xmp.dc.title'') (Some '' Ann '') = Some st' \<and>
     undo_records st' = []) \<and>
   metadata_execute (\<lambda>i. 0 < i) [7] [''1'', ''Ann''] False DT_MA_ADD ([], [])
     = Some ([(7, 1, Some ''Ann'')], [])"
proof -
  have e: "metadata_execute (\<lambda>i. 0 < i) [7] [''1'', ''Ann''] False DT_MA_ADD ([], [])
     = Some ([(7, 1, Some ''Ann'')], [])"
    by code_simp
  show ?thesis
    using e C10_import_no_undo [of "\<lambda>i. 0 < i" 4 "example_state []" 7
        "Some ''Xmp.dc.title''" "Some '' Ann ''"]
    by simp
qed

end
